theory Spec2Isabelle
  imports
    Main
    "HOL-Library.AList"
    "HOL-Library.Char_ord"
    "HOL-Library.List_Lexorder"
    "HOL-Library.Product_Lexorder"
begin

section \<open>Strategy bootstrap: a shallow embedding of \<open>bootstrap_strategies.py\<close>\<close>

text \<open>
  The Python tool scans a strategies directory, loads every \<open>*.js\<close> module, optionally
  moves modules into the layout \<open>name/version/name.js\<close>, writes \<open>registry.json\<close>
  and reports revisions without usage.  Each function of the source is a HOL function of
  the same name.  Exceptions are values of a sum type, the file system is an explicit
  state, and the standard library pieces the tool calls (SHA-256, the \<open>node\<close>
  subprocess, the JSON codec, path resolution, HTTP) are fields of an environment
  record passed to the functions that call them.  The second source file,
  \<open>bootstrape.py\<close>, has the same functions word for word and asks for the root and
  the write flag at a prompt; \<open>main\<close> below is the one of \<open>bootstrap_strategies.py\<close>,
  taken after \<open>parse_args\<close>.
\<close>

subsection \<open>Strings\<close>

text \<open>
  A \<open>str\<close> is a \<open>string\<close>; a character stands for the code point of the same number,
  so the model covers the Latin-1 range.  The order on strings is the lexicographic order
  on code points, which is Python's \<open><\<close> on \<open>str\<close>.
\<close>

text \<open>\<open>str.isspace\<close> on one character: the code points 9 to 13, 28 to 32, 133 and 160.\<close>

definition py_isspace :: "char \<Rightarrow> bool" where
  "py_isspace c =
     ((CHR 0x09 \<le> c \<and> c \<le> CHR 0x0D) \<or> (CHR 0x1C \<le> c \<and> c \<le> CHR 0x20)
      \<or> c = CHR 0x85 \<or> c = CHR 0xA0)"

definition strip :: "string \<Rightarrow> string" where
  "strip s = rev (dropWhile py_isspace (rev (dropWhile py_isspace s)))"

text \<open>
  The characters \<open>str.lower\<close> changes: \<open>A\<close> to \<open>Z\<close> and the code points 192 to
  222 except 215.  Each is mapped to the code point 32 above it; bit 5, of value 32, is
  clear in all of them, so that adding 32 sets that bit.
\<close>

definition is_upper :: "char \<Rightarrow> bool" where
  "is_upper c =
     ((CHR ''A'' \<le> c \<and> c \<le> CHR ''Z'') \<or> (CHR 0xC0 \<le> c \<and> c \<le> CHR 0xDE \<and> c \<noteq> CHR 0xD7))"

definition lower_char :: "char \<Rightarrow> char" where
  "lower_char c =
     (if is_upper c
      then (case c of Char b0 b1 b2 b3 b4 b5 b6 b7 \<Rightarrow> Char b0 b1 b2 b3 b4 True b6 b7)
      else c)"

definition lower :: "string \<Rightarrow> string" where
  "lower s = map lower_char s"

fun startswith :: "string \<Rightarrow> string \<Rightarrow> bool" where
  "startswith s [] = True"
| "startswith [] (p # ps) = False"
| "startswith (c # cs) (p # ps) = (c = p \<and> startswith cs ps)"

definition endswith :: "string \<Rightarrow> string \<Rightarrow> bool" where
  "endswith s suffix = startswith (rev s) (rev suffix)"

fun split_on :: "char \<Rightarrow> string \<Rightarrow> string list" where
  "split_on sep [] = [[]]"
| "split_on sep (c # cs) =
     (if c = sep then [] # split_on sep cs
      else (case split_on sep cs of [] \<Rightarrow> [[c]] | seg # segs \<Rightarrow> (c # seg) # segs))"

fun join :: "string \<Rightarrow> string list \<Rightarrow> string" where
  "join sep [] = []"
| "join sep [s] = s"
| "join sep (s # t # ss) = s @ sep @ join sep (t # ss)"

subsection \<open>Bytes and the hexadecimal digest\<close>

type_synonym bytes = "char list"

definition hex_digit :: "nat \<Rightarrow> char" where
  "hex_digit n = ''0123456789abcdef'' ! (n mod 16)"

definition hex_byte :: "char \<Rightarrow> string" where
  "hex_byte b = [hex_digit ((of_char b :: nat) div 16), hex_digit ((of_char b :: nat) mod 16)]"

text \<open>\<open>hexdigest()\<close> of a digest: two lowercase hexadecimal digits per byte.\<close>

definition hexdigest :: "bytes \<Rightarrow> string" where
  "hexdigest digest = concat (map hex_byte digest)"

text \<open>\<open>str.encode("utf-8")\<close> on code points below 256.\<close>

definition utf8_char :: "char \<Rightarrow> bytes" where
  "utf8_char c =
     (if c < CHR 0x80 then [c]
      else [char_of (192 + (of_char c :: nat) div 64), char_of (128 + (of_char c :: nat) mod 64)])"

definition utf8_encode :: "string \<Rightarrow> bytes" where
  "utf8_encode s = concat (map utf8_char s)"

subsection \<open>Paths\<close>

text \<open>
  A \<open>Path\<close> is the list of its segments.  Absolute paths are taken from the POSIX root,
  which is the empty list; a relative path is the list of its \<open>parts\<close>.  \<open>pathlib\<close>
  keeps a root of exactly two slashes apart from the root of one slash: such a path
  starts with the segment \<open>/\<close>, which no name can be.
\<close>

type_synonym path = "string list"

definition path_parts :: "string \<Rightarrow> string list" where
  "path_parts s = filter (\<lambda>seg. seg \<noteq> [] \<and> seg \<noteq> ''.'') (split_on (CHR ''/'') s)"

definition path_anchor :: "string \<Rightarrow> string list" where
  "path_anchor s = (if startswith s ''//'' \<and> \<not> startswith s ''///'' then [''/''] else [])"

definition double_slash :: "path \<Rightarrow> bool" where
  "double_slash p = (case p of [] \<Rightarrow> False | seg # rest \<Rightarrow> seg = ''/'')"

text \<open>The operator \<open>/\<close> of \<open>pathlib\<close>: an absolute right operand replaces the left one.\<close>

definition path_join :: "path \<Rightarrow> string \<Rightarrow> path" where
  "path_join base s =
     (if startswith s ''/'' then path_anchor s @ path_parts s else base @ path_parts s)"

text \<open>\<open>str(path)\<close> of an absolute path.\<close>

definition path_str :: "path \<Rightarrow> string" where
  "path_str p =
     (if p = [] then ''/''
      else if p = [''/''] then ''//''
      else if double_slash p then ''/'' @ concat (map (\<lambda>seg. ''/'' @ seg) (tl p))
      else concat (map (\<lambda>seg. ''/'' @ seg) p))"

text \<open>
  \<open>path.relative_to(root)\<close> raises \<open>ValueError\<close> unless \<open>root\<close> is a prefix; the
  root of two slashes is not below the root of one.
\<close>

definition relative_to :: "path \<Rightarrow> path \<Rightarrow> string list option" where
  "relative_to p root =
     (if take (length root) p = root \<and> \<not> (root = [] \<and> double_slash p)
      then Some (drop (length root) p) else None)"

definition as_posix :: "string list \<Rightarrow> string" where
  "as_posix parts = (if parts = [] then ''.'' else join ''/'' parts)"

subsection \<open>Exceptions\<close>

text \<open>
  \<open>BootstrapError\<close> is the tool's own exception and the only one \<open>main\<close> catches.
  The others are the exceptions of the standard library that the code lets through or
  catches and rewraps; \<open>OSError\<close> carries the text of the operating system's message.
\<close>

datatype error =
    BootstrapError string
  | OSError string
  | ValueError
  | TypeError
  | KeyError
  | AttributeError
  | OverflowError
  | RuntimeError

subsection \<open>The file system\<close>

text \<open>
  The state of the file system is an association list from absolute paths to nodes; the
  root directory \<open>[]\<close> always exists.  Every call into the operating system first takes
  one item of \<open>faults\<close>: \<open>Proceed\<close> (also when the list is exhausted) lets the call
  go ahead, so that it fails only for what the tree looks like; \<open>Refuse\<close> makes it fail
  without any effect (permissions, a read-only device); \<open>Break k\<close> makes it fail after
  \<open>k\<close> units of progress (a full disk in the middle of a write).  Segments are names:
  the tree has no symbolic links and gives \<open>..\<close> no meaning.
\<close>

datatype node = File bytes | Dir

datatype fault = Proceed | Refuse | Break nat

record world =
  nodes :: "(path \<times> node) list"
  faults :: "fault list"

text \<open>
  The file a path names to the operating system, where a root of two slashes is the
  root, and the paths that never reach it: a path with a NUL character is refused with
  \<open>ValueError\<close> before any call is made.
\<close>

definition fs_path :: "path \<Rightarrow> path" where
  "fs_path p = (if double_slash p then tl p else p)"

definition has_nul :: "path \<Rightarrow> bool" where
  "has_nul p = list_ex (\<lambda>seg. CHR 0x00 \<in> set seg) p"

definition lookup_node :: "world \<Rightarrow> path \<Rightarrow> node option" where
  "lookup_node w p = (if p = [] then Some Dir else map_of (nodes w) p)"

definition is_dir :: "world \<Rightarrow> path \<Rightarrow> bool" where
  "is_dir w p = (lookup_node w p = Some Dir)"

definition next_fault :: "world \<Rightarrow> fault \<times> world" where
  "next_fault w =
     (case faults w of [] \<Rightarrow> (Proceed, w) | f # fs \<Rightarrow> (f, w\<lparr>faults := fs\<rparr>))"

definition put_node :: "path \<Rightarrow> node \<Rightarrow> world \<Rightarrow> world" where
  "put_node p n w = w\<lparr>nodes := AList.update p n (nodes w)\<rparr>"

definition del_node :: "path \<Rightarrow> world \<Rightarrow> world" where
  "del_node p w = w\<lparr>nodes := AList.delete p (nodes w)\<rparr>"

text \<open>A file can be created or truncated when its parent is a directory and it is not one.\<close>

definition writable :: "world \<Rightarrow> path \<Rightarrow> bool" where
  "writable w p = (p \<noteq> [] \<and> is_dir w (butlast p) \<and> lookup_node w p \<noteq> Some Dir)"

text \<open>
  The calls into the operating system come first, on the paths it sees; the methods of
  \<open>Path\<close> that make them follow.  Reading a file:
\<close>

definition sys_read :: "path \<Rightarrow> world \<Rightarrow> (error + bytes) \<times> world" where
  "sys_read p w =
     (case next_fault w of
        (Proceed, w1) \<Rightarrow>
          (case lookup_node w1 p of
             Some (File b) \<Rightarrow> (Inr b, w1)
           | Some Dir \<Rightarrow> (Inl (OSError ''Is a directory''), w1)
           | None \<Rightarrow> (Inl (OSError ''No such file or directory''), w1))
      | (_, w1) \<Rightarrow> (Inl (OSError ''Input/output error''), w1))"

text \<open>
  Writing a file: it is opened, which truncates it, then written.  A call that breaks
  after \<open>k\<close> bytes leaves the first \<open>k\<close> bytes in the file.
\<close>

definition sys_write :: "path \<Rightarrow> bytes \<Rightarrow> world \<Rightarrow> (error + unit) \<times> world" where
  "sys_write p data w =
     (case next_fault w of
        (Proceed, w1) \<Rightarrow>
          (if writable w1 p then (Inr (), put_node p (File data) w1)
           else (Inl (OSError ''cannot open for writing''), w1))
      | (Refuse, w1) \<Rightarrow> (Inl (OSError ''Permission denied''), w1)
      | (Break k, w1) \<Rightarrow>
          (Inl (OSError ''No space left on device''),
           if writable w1 p then put_node p (File (take k data)) w1 else w1))"

text \<open>Removing a file.\<close>

definition sys_unlink :: "path \<Rightarrow> world \<Rightarrow> (error + unit) \<times> world" where
  "sys_unlink p w =
     (case next_fault w of
        (Proceed, w1) \<Rightarrow>
          (case lookup_node w1 p of
             Some (File b) \<Rightarrow> (Inr (), del_node p w1)
           | Some Dir \<Rightarrow> (Inl (OSError ''Is a directory''), w1)
           | None \<Rightarrow> (Inl (OSError ''No such file or directory''), w1))
      | (_, w1) \<Rightarrow> (Inl (OSError ''Permission denied''), w1))"

text \<open>
  Creating a directory with its parents, as \<open>mkdir(parents=True, exist_ok=True)\<close>
  does: every prefix of the path becomes a directory; the call fails when one of them
  is a regular file.  A call that breaks after \<open>k\<close> steps has created the first \<open>k\<close>
  prefixes.
\<close>

definition prefixes_of :: "path \<Rightarrow> path list" where
  "prefixes_of p = map (\<lambda>k. take k p) [1 ..< Suc (length p)]"

definition is_file :: "world \<Rightarrow> path \<Rightarrow> bool" where
  "is_file w p = (case lookup_node w p of Some (File b) \<Rightarrow> True | _ \<Rightarrow> False)"

definition blocked :: "world \<Rightarrow> path list \<Rightarrow> bool" where
  "blocked w ps = list_ex (is_file w) ps"

definition make_dirs :: "path list \<Rightarrow> world \<Rightarrow> world" where
  "make_dirs ps w = fold (\<lambda>q. put_node q Dir) ps w"

definition sys_mkdir :: "path \<Rightarrow> world \<Rightarrow> (error + unit) \<times> world" where
  "sys_mkdir p w =
     (case next_fault w of
        (Proceed, w1) \<Rightarrow>
          (if blocked w1 (prefixes_of p) then (Inl (OSError ''File exists''), w1)
           else (Inr (), make_dirs (prefixes_of p) w1))
      | (Refuse, w1) \<Rightarrow> (Inl (OSError ''Permission denied''), w1)
      | (Break k, w1) \<Rightarrow>
          (Inl (OSError ''No space left on device''),
           if blocked w1 (take k (prefixes_of p)) then w1
           else make_dirs (take k (prefixes_of p)) w1))"

text \<open>
  Renaming a regular file over a target, the only renaming the tool does: it is atomic,
  so a failing call changes nothing.
\<close>

definition sys_rename :: "path \<Rightarrow> path \<Rightarrow> world \<Rightarrow> (error + unit) \<times> world" where
  "sys_rename src dst w =
     (case next_fault w of
        (Proceed, w1) \<Rightarrow>
          (case lookup_node w1 src of
             Some (File b) \<Rightarrow>
               (if writable w1 dst then (Inr (), put_node dst (File b) (del_node src w1))
                else (Inl (OSError ''cannot rename over target''), w1))
           | _ \<Rightarrow> (Inl (OSError ''source is not a regular file''), w1))
      | (_, w1) \<Rightarrow> (Inl (OSError ''Permission denied''), w1))"

text \<open>\<open>Path.read_bytes()\<close>.\<close>

definition read_bytes :: "path \<Rightarrow> world \<Rightarrow> (error + bytes) \<times> world" where
  "read_bytes p w = (if has_nul p then (Inl ValueError, w) else sys_read (fs_path p) w)"

text \<open>\<open>Path.write_bytes(data)\<close>.\<close>

definition write_bytes :: "path \<Rightarrow> bytes \<Rightarrow> world \<Rightarrow> (error + unit) \<times> world" where
  "write_bytes p data w =
     (if has_nul p then (Inl ValueError, w) else sys_write (fs_path p) data w)"

text \<open>\<open>Path.write_text(text, encoding="utf-8")\<close>.\<close>

definition write_text :: "path \<Rightarrow> string \<Rightarrow> world \<Rightarrow> (error + unit) \<times> world" where
  "write_text p text w = write_bytes p (utf8_encode text) w"

text \<open>\<open>Path.unlink()\<close>.\<close>

definition unlink :: "path \<Rightarrow> world \<Rightarrow> (error + unit) \<times> world" where
  "unlink p w = (if has_nul p then (Inl ValueError, w) else sys_unlink (fs_path p) w)"

text \<open>\<open>Path.mkdir(parents=True, exist_ok=True)\<close>.\<close>

definition mkdir_parents :: "path \<Rightarrow> world \<Rightarrow> (error + unit) \<times> world" where
  "mkdir_parents p w = (if has_nul p then (Inl ValueError, w) else sys_mkdir (fs_path p) w)"

text \<open>\<open>Path.replace(target)\<close>.\<close>

definition replace_file :: "path \<Rightarrow> path \<Rightarrow> world \<Rightarrow> (error + unit) \<times> world" where
  "replace_file src dst w =
     (if has_nul src \<or> has_nul dst then (Inl ValueError, w)
      else sys_rename (fs_path src) (fs_path dst) w)"

subsection \<open>JSON values and the conversions \<open>str\<close> and \<open>int\<close>\<close>

text \<open>
  What \<open>json.loads\<close> returns.  A finite float is \<open>m * 2 ^ e\<close> for integers \<open>m\<close>
  and \<open>e\<close>; an object is the list of its members, read with \<open>map_of\<close>.
\<close>

datatype pyfloat = Finite int int | PosInf | NegInf | NaN

datatype json =
    JNull
  | JBool bool
  | JInt int
  | JFloat pyfloat
  | JStr string
  | JArr "json list"
  | JObj "(string \<times> json) list"

text \<open>\<open>value.get(key, default)\<close>; only a \<open>dict\<close> has the method.\<close>

definition json_get :: "json \<Rightarrow> string \<Rightarrow> json \<Rightarrow> error + json" where
  "json_get v k d =
     (case v of
        JObj kvs \<Rightarrow> Inr (case map_of kvs k of Some x \<Rightarrow> x | None \<Rightarrow> d)
      | _ \<Rightarrow> Inl AttributeError)"

definition digit_char :: "nat \<Rightarrow> char" where
  "digit_char n = ''0123456789'' ! (n mod 10)"

fun digits_of :: "nat \<Rightarrow> nat \<Rightarrow> string" where
  "digits_of 0 n = []"
| "digits_of (Suc fuel) n =
     (if n < 10 then [digit_char n]
      else digits_of fuel (n div 10) @ [digit_char (n mod 10)])"

definition str_int :: "int \<Rightarrow> string" where
  "str_int i =
     (if i < 0 then CHR ''-'' # digits_of (Suc (nat (- i))) (nat (- i))
      else digits_of (Suc (nat i)) (nat i))"

text \<open>
  \<open>str(value)\<close>.  The text of a float, a list or a dict is the one \<open>repr\<close> gives,
  which is a parameter.
\<close>

definition py_str :: "(json \<Rightarrow> string) \<Rightarrow> json \<Rightarrow> string" where
  "py_str repr v =
     (case v of
        JStr s \<Rightarrow> s
      | JNull \<Rightarrow> ''None''
      | JBool b \<Rightarrow> (if b then ''True'' else ''False'')
      | JInt i \<Rightarrow> str_int i
      | _ \<Rightarrow> repr v)"

definition is_digit :: "char \<Rightarrow> bool" where
  "is_digit c = (CHR ''0'' \<le> c \<and> c \<le> CHR ''9'')"

definition decimal :: "string \<Rightarrow> int" where
  "decimal ds = foldl (\<lambda>acc c. 10 * acc + (int (of_char c) - 48)) 0 ds"

text \<open>
  The whitespace \<open>int\<close> skips around a number: tab to carriage return and the space,
  and the spaces above the ASCII range, which it first turns into the space.  The code
  points 28 to 31, which \<open>str.strip\<close> removes, are not among them.
\<close>

definition int_isspace :: "char \<Rightarrow> bool" where
  "int_isspace c =
     ((CHR 0x09 \<le> c \<and> c \<le> CHR 0x0D) \<or> c = CHR 0x20 \<or> c = CHR 0x85 \<or> c = CHR 0xA0)"

text \<open>
  \<open>int(text)\<close>: surrounding whitespace, one optional sign, then decimal digits in
  groups separated by single underscores.  The interpreter refuses a number of more
  than \<open>limit\<close> digits, unless the limit is \<open>0\<close>.
\<close>

definition int_of_str :: "nat \<Rightarrow> string \<Rightarrow> error + int" where
  "int_of_str limit s =
     (let t = rev (dropWhile int_isspace (rev (dropWhile int_isspace s)));
          negative = startswith t ''-'';
          body = (if startswith t ''-'' \<or> startswith t ''+'' then tl t else t);
          groups = split_on (CHR ''_'') body
      in if list_all (\<lambda>g. g \<noteq> [] \<and> list_all is_digit g) groups
            \<and> \<not> (0 < limit \<and> limit < length (concat groups))
         then Inr (if negative then - decimal (concat groups) else decimal (concat groups))
         else Inl ValueError)"

text \<open>\<open>int(x)\<close> of a float truncates towards zero.\<close>

definition trunc_float :: "int \<Rightarrow> int \<Rightarrow> int" where
  "trunc_float m e =
     (if 0 \<le> e then m * 2 ^ nat e
      else if 0 \<le> m then m div 2 ^ nat (- e)
      else - ((- m) div 2 ^ nat (- e)))"

definition py_int :: "nat \<Rightarrow> json \<Rightarrow> error + int" where
  "py_int limit v =
     (case v of
        JNull \<Rightarrow> Inl TypeError
      | JBool b \<Rightarrow> Inr (if b then 1 else 0)
      | JInt i \<Rightarrow> Inr i
      | JFloat (Finite m e) \<Rightarrow> Inr (trunc_float m e)
      | JFloat NaN \<Rightarrow> Inl ValueError
      | JFloat _ \<Rightarrow> Inl OverflowError
      | JStr s \<Rightarrow> int_of_str limit s
      | JArr _ \<Rightarrow> Inl TypeError
      | JObj _ \<Rightarrow> Inl TypeError)"

subsection \<open>Modules and the registry\<close>

record ModuleInfo =
  name :: string
  version :: string
  path :: path
  source :: bytes
  metadata :: json
  sha256 :: string
  versioned :: bool

text \<open>
  A registry entry is \<open>{"tags": {...}, "hashes": {...}}\<close>; each record under
  \<open>hashes\<close> is \<open>{"tag": ..., "path": ...}\<close>.  A \<open>dict\<close> keeps the order in which
  its keys were first inserted, so it is an association list that \<open>AList.update\<close>
  changes in place or extends at the end.
\<close>

record location =
  loc_tag :: string
  loc_path :: string

record entry =
  tags :: "(string \<times> string) list"
  hashes :: "(string \<times> location) list"

type_synonym registry = "(string \<times> entry) list"

subsection \<open>The environment\<close>

datatype proc = NodeNotFound | Completed int string string

text \<open>
  The library calls of the tool: \<open>expanduser\<close> (\<open>None\<close> when the home directory is
  unknown) and \<open>abspath\<close> (the absolute path the operating system gives a path string),
  the outcome of running \<open>node\<close> on a module (return code, standard output, standard
  error), the SHA-256 digest, \<open>json.loads\<close> (the message of the decoding error on the
  left), \<open>json.dumps(registry, indent=2)\<close>, \<open>repr\<close>, the decoding of UTF-8, the
  body of an HTTP response (the message of the \<open>URLError\<close> on the left) and the
  interpreter's limit on the digits of a number read from a string (\<open>0\<close> for none).
\<close>

record env =
  expanduser :: "string \<Rightarrow> string option"
  abspath :: "string \<Rightarrow> path"
  run_node :: "path \<Rightarrow> proc"
  sha256_digest :: "bytes \<Rightarrow> bytes"
  json_loads :: "string \<Rightarrow> string + json"
  json_dumps :: "registry \<Rightarrow> string"
  py_repr :: "json \<Rightarrow> string"
  utf8_decode :: "bytes \<Rightarrow> string option"
  urlopen :: "string \<Rightarrow> string + string"
  int_max_str_digits :: nat

definition DEFAULT_VERSION :: string where
  "DEFAULT_VERSION = ''v1.0.0''"

subsection \<open>\<open>ensure_dir\<close>\<close>

definition ensure_dir :: "env \<Rightarrow> string \<Rightarrow> world \<Rightarrow> (error + path) \<times> world" where
  "ensure_dir E p w =
     (let trimmed = strip p
      in if trimmed = [] then (Inl (BootstrapError ''directory required''), w)
         else (case expanduser E trimmed of
                 None \<Rightarrow> (Inl RuntimeError, w)
               | Some expanded \<Rightarrow>
                   (let target = abspath E expanded
                    in case mkdir_parents target w of
                         (Inl e, w1) \<Rightarrow> (Inl e, w1)
                       | (Inr u, w1) \<Rightarrow> (Inr target, w1))))"

subsection \<open>Loading a module\<close>

definition is_versioned_path :: "string list \<Rightarrow> string \<Rightarrow> string \<Rightarrow> bool" where
  "is_versioned_path parts nm ver =
     (if length parts < 3 then False
      else (let filename = lower (last parts);
                expected = nm @ ''.js''
            in if filename \<noteq> expected then False
               else (let version_component = last (butlast parts)
                     in lower version_component = lower ver)))"

definition extract_metadata :: "env \<Rightarrow> path \<Rightarrow> error + json" where
  "extract_metadata E p =
     (case run_node E p of
        NodeNotFound \<Rightarrow>
          Inl (BootstrapError ''node binary not found (required to load metadata exports)'')
      | Completed returncode out err \<Rightarrow>
          (if returncode \<noteq> 0
           then Inl (BootstrapError
                  (if strip err \<noteq> [] then strip err
                   else ''metadata extraction failed for '' @ path_str p))
           else (case json_loads E out of
                   Inl msg \<Rightarrow>
                     Inl (BootstrapError
                       (''metadata export invalid for '' @ path_str p @ '': '' @ msg))
                 | Inr v \<Rightarrow> Inr v)))"

definition load_module :: "env \<Rightarrow> path \<Rightarrow> path \<Rightarrow> world \<Rightarrow> (error + ModuleInfo) \<times> world" where
  "load_module E root p w =
     (case read_bytes p w of
        (Inl e, w1) \<Rightarrow>
          (case e of
             OSError msg \<Rightarrow> (Inl (BootstrapError (''read '' @ path_str p @ '': '' @ msg)), w1)
           | _ \<Rightarrow> (Inl e, w1))
      | (Inr src, w1) \<Rightarrow>
          (case extract_metadata E p of
             Inl e \<Rightarrow> (Inl e, w1)
           | Inr md \<Rightarrow>
               (case json_get md ''name'' (JStr []) of
                  Inl e \<Rightarrow> (Inl e, w1)
                | Inr name_value \<Rightarrow>
                    (let nm = lower (strip (py_str (py_repr E) name_value))
                     in if nm = []
                        then (Inl (BootstrapError (path_str p @ '': metadata.name required'')), w1)
                        else (case json_get md ''version'' (JStr []) of
                                Inl e \<Rightarrow> (Inl e, w1)
                              | Inr version_value \<Rightarrow>
                                  (let stripped = strip (py_str (py_repr E) version_value);
                                       ver = (if stripped \<noteq> [] then stripped else DEFAULT_VERSION);
                                       sha = hexdigest (sha256_digest E src)
                                   in case relative_to p root of
                                        None \<Rightarrow> (Inl ValueError, w1)
                                      | Some rel \<Rightarrow>
                                          (Inr \<lparr>name = nm, version = ver, path = p,
                                                source = src, metadata = md,
                                                sha256 = ''sha256:'' @ sha,
                                                versioned = is_versioned_path rel nm ver\<rparr>,
                                           w1)))))))"

subsection \<open>Discovery\<close>

text \<open>
  \<open>root.rglob("*.js")\<close>: every entry below \<open>root\<close> whose name ends with \<open>.js\<close> and
  whose ancestors up to \<open>root\<close> are directories, each as \<open>root\<close> followed by its
  segments below \<open>root\<close>.  \<open>sorted\<close> orders paths by their lists of segments.
\<close>

definition rglob_js :: "world \<Rightarrow> path \<Rightarrow> path list" where
  "rglob_js w root =
     (let top = fs_path root
      in map (\<lambda>q. root @ drop (length top) q)
           (filter (\<lambda>q. length top < length q \<and> take (length top) q = top
                        \<and> endswith (last q) ''.js''
                        \<and> list_all (\<lambda>k. is_dir w (take k q)) [length top ..< length q])
              (remdups (map fst (nodes w)))))"

fun load_all :: "env \<Rightarrow> path \<Rightarrow> path list \<Rightarrow> world \<Rightarrow> (error + ModuleInfo list) \<times> world" where
  "load_all E root [] w = (Inr [], w)"
| "load_all E root (js_file # rest) w =
     (if last js_file = ''registry.json'' then load_all E root rest w
      else (case load_module E root js_file w of
              (Inl e, w1) \<Rightarrow> (Inl e, w1)
            | (Inr m, w1) \<Rightarrow>
                (case load_all E root rest w1 of
                   (Inl e, w2) \<Rightarrow> (Inl e, w2)
                 | (Inr ms, w2) \<Rightarrow> (Inr (m # ms), w2))))"

definition discover_modules :: "env \<Rightarrow> path \<Rightarrow> world \<Rightarrow> (error + ModuleInfo list) \<times> world" where
  "discover_modules E root w =
     (if has_nul root then (Inl ValueError, w)
      else load_all E root (sort (rglob_js w root)) w)"

subsection \<open>Normalising the layout\<close>

definition move_error :: "path \<Rightarrow> path \<Rightarrow> error \<Rightarrow> error" where
  "move_error src dst e =
     (case e of
        OSError msg \<Rightarrow>
          BootstrapError (''move module '' @ path_str src @ '' -> '' @ path_str dst @ '': '' @ msg)
      | _ \<Rightarrow> e)"

definition materialize_module :: "path \<Rightarrow> ModuleInfo \<Rightarrow> world \<Rightarrow> (error + path) \<times> world" where
  "materialize_module root m w =
     (if versioned m then (Inr (path m), w)
      else (let target_dir = path_join (path_join root (name m)) (version m)
            in case mkdir_parents target_dir w of
                 (Inl e, w1) \<Rightarrow> (Inl e, w1)
               | (Inr u, w1) \<Rightarrow>
                   (let target_path = path_join target_dir (name m @ ''.js'')
                    in case write_bytes target_path (source m) w1 of
                         (Inl e, w2) \<Rightarrow> (Inl (move_error (path m) target_path e), w2)
                       | (Inr u2, w2) \<Rightarrow>
                           (case unlink (path m) w2 of
                              (Inl e, w3) \<Rightarrow> (Inl (move_error (path m) target_path e), w3)
                            | (Inr u3, w3) \<Rightarrow> (Inr target_path, w3)))))"

subsection \<open>Building the registry\<close>

definition pick_latest_tag :: "(string \<times> string) list \<Rightarrow> error + string" where
  "pick_latest_tag tgs =
     (let candidates = filter (\<lambda>t. t \<noteq> ''latest'') (map fst tgs)
      in if candidates = []
         then Inr (case map snd tgs of [] \<Rightarrow> [] | h # hs \<Rightarrow> h)
         else (case map_of tgs (last (sort candidates)) of
                 None \<Rightarrow> Inl KeyError
               | Some h \<Rightarrow> Inr h))"

definition empty_entry :: entry where
  "empty_entry = \<lparr>tags = [], hashes = []\<rparr>"

text \<open>\<open>registry.setdefault(key, default)\<close>: the registry afterwards and the entry it holds.\<close>

definition setdefault :: "registry \<Rightarrow> string \<Rightarrow> entry \<Rightarrow> registry \<times> entry" where
  "setdefault reg k d =
     (case map_of reg k of
        Some e \<Rightarrow> (reg, e)
      | None \<Rightarrow> (reg @ [(k, d)], d))"

text \<open>The first loop of \<open>build_registry\<close>, one module per step.\<close>

fun fold_modules ::
  "path \<Rightarrow> bool \<Rightarrow> ModuleInfo list \<Rightarrow> registry \<Rightarrow> world \<Rightarrow> (error + registry) \<times> world" where
  "fold_modules root write [] reg w = (Inr reg, w)"
| "fold_modules root write (m # ms) reg w =
     (case setdefault reg (name m) empty_entry of
        (reg1, current) \<Rightarrow>
          (case (if write then materialize_module root m w else (Inr (path m), w)) of
             (Inl e, w1) \<Rightarrow> (Inl e, w1)
           | (Inr module_path, w1) \<Rightarrow>
               (case relative_to module_path root of
                  None \<Rightarrow> (Inl ValueError, w1)
                | Some rel \<Rightarrow>
                    fold_modules root write ms
                      (AList.update (name m)
                         \<lparr>tags = AList.update (version m) (sha256 m) (tags current),
                          hashes = AList.update (sha256 m)
                                     \<lparr>loc_tag = version m, loc_path = as_posix rel\<rparr>
                                     (hashes current)\<rparr>
                         reg1)
                      w1)))"

text \<open>The second loop: every entry with a tag gets its \<open>latest\<close>.\<close>

fun set_latest :: "registry \<Rightarrow> error + registry" where
  "set_latest [] = Inr []"
| "set_latest ((k, e) # rest) =
     (if tags e \<noteq> []
      then (case pick_latest_tag (tags e) of
              Inl err \<Rightarrow> Inl err
            | Inr h \<Rightarrow>
                (case set_latest rest of
                   Inl err \<Rightarrow> Inl err
                 | Inr rest' \<Rightarrow> Inr ((k, e\<lparr>tags := AList.update ''latest'' h (tags e)\<rparr>) # rest')))
      else (case set_latest rest of
              Inl err \<Rightarrow> Inl err
            | Inr rest' \<Rightarrow> Inr ((k, e) # rest')))"

definition build_registry ::
  "ModuleInfo list \<Rightarrow> path \<Rightarrow> bool \<Rightarrow> world \<Rightarrow> (error + registry) \<times> world" where
  "build_registry modules root write w =
     (case fold_modules root write modules [] w of
        (Inl e, w1) \<Rightarrow> (Inl e, w1)
      | (Inr reg, w1) \<Rightarrow> (set_latest reg, w1))"

subsection \<open>Writing the manifest\<close>

definition registry_error :: "error \<Rightarrow> error" where
  "registry_error e =
     (case e of OSError msg \<Rightarrow> BootstrapError (''write registry: '' @ msg) | _ \<Rightarrow> e)"

definition write_registry :: "env \<Rightarrow> path \<Rightarrow> registry \<Rightarrow> world \<Rightarrow> (error + unit) \<times> world" where
  "write_registry E root registry w =
     (let tmp = path_join root ''registry.json.tmp'';
          target = path_join root ''registry.json''
      in case write_text tmp (json_dumps E registry @ [CHR 0x0A]) w of
           (Inl e, w1) \<Rightarrow> (Inl (registry_error e), w1)
         | (Inr u, w1) \<Rightarrow>
             (case replace_file tmp target w1 of
                (Inl e, w2) \<Rightarrow> (Inl (registry_error e), w2)
              | (Inr u2, w2) \<Rightarrow> (Inr (), w2)))"

subsection \<open>Reading the usage export\<close>

text \<open>\<open>str(Path(text))\<close> for a path that is not resolved.\<close>

definition pure_path_str :: "string \<Rightarrow> string" where
  "pure_path_str s =
     (if startswith s ''/'' then path_str (path_anchor s @ path_parts s)
      else as_posix (path_parts s))"

definition extract_usage_from_payload :: "env \<Rightarrow> string \<Rightarrow> string \<Rightarrow> error + json list" where
  "extract_usage_from_payload E payload src =
     (case json_loads E payload of
        Inl msg \<Rightarrow> Inl (BootstrapError (''usage export '' @ src @ '' invalid JSON: '' @ msg))
      | Inr data \<Rightarrow>
          (let usage = (case data of
                          JObj kvs \<Rightarrow> (case map_of kvs ''usage'' of Some u \<Rightarrow> u | None \<Rightarrow> data)
                        | _ \<Rightarrow> data)
           in case usage of
                JArr entries \<Rightarrow> Inr entries
              | _ \<Rightarrow> Inl (BootstrapError (''usage export '' @ src @ '' missing usage array''))))"

definition read_usage ::
  "env \<Rightarrow> string option \<Rightarrow> string option \<Rightarrow> world \<Rightarrow> (error + json list option) \<times> world" where
  "read_usage E src output_path w =
     (case src of
        None \<Rightarrow> (Inr None, w)
      | Some s \<Rightarrow>
          if s = [] then (Inr None, w)
          else if startswith s ''http://'' \<or> startswith s ''https://''
          then (case urlopen E s of
                  Inl msg \<Rightarrow> (Inl (BootstrapError (''fetch usage from '' @ s @ '': '' @ msg)), w)
                | Inr payload \<Rightarrow>
                    (case (case output_path of
                             None \<Rightarrow> (Inr (), w)
                           | Some out \<Rightarrow>
                               if out = [] then (Inr (), w)
                               else write_text (abspath E out) payload w) of
                       (Inl e, w1) \<Rightarrow> (Inl e, w1)
                     | (Inr u, w1) \<Rightarrow>
                         (case extract_usage_from_payload E payload s of
                            Inl e \<Rightarrow> (Inl e, w1)
                          | Inr entries \<Rightarrow> (Inr (Some entries), w1))))
          else (case read_bytes (abspath E s) w of
                  (Inl e, w1) \<Rightarrow>
                    (case e of
                       OSError msg \<Rightarrow>
                         (Inl (BootstrapError
                            (''read usage export '' @ pure_path_str s @ '': '' @ msg)), w1)
                     | _ \<Rightarrow> (Inl e, w1))
                | (Inr raw, w1) \<Rightarrow>
                    (case utf8_decode E raw of
                       None \<Rightarrow> (Inl ValueError, w1)
                     | Some payload \<Rightarrow>
                         (case extract_usage_from_payload E payload (pure_path_str s) of
                            Inl e \<Rightarrow> (Inl e, w1)
                          | Inr entries \<Rightarrow> (Inr (Some entries), w1)))))"

subsection \<open>The usage report\<close>

text \<open>
  The first loop of \<open>report_usage\<close>: \<open>usage_index[name][hash] = entry\<close>, here a table
  keyed by the pair.  An entry that is not a \<open>dict\<close> has no \<open>get\<close>.
\<close>

type_synonym usage_index = "((string \<times> string) \<times> json) list"

fun index_usage :: "env \<Rightarrow> json list \<Rightarrow> usage_index \<Rightarrow> error + usage_index" where
  "index_usage E [] idx = Inr idx"
| "index_usage E (entry # rest) idx =
     (case json_get entry ''strategy'' (JStr []) of
        Inl e \<Rightarrow> Inl e
      | Inr strategy \<Rightarrow>
          (case json_get entry ''hash'' (JStr []) of
             Inl e \<Rightarrow> Inl e
           | Inr hash \<Rightarrow>
               (let nm = lower (strip (py_str (py_repr E) strategy));
                    hash_value = strip (py_str (py_repr E) hash)
                in if nm = [] \<or> hash_value = [] then index_usage E rest idx
                   else index_usage E rest (AList.update (nm, hash_value) entry idx))))"

text \<open>
  \<open>count = int(usage_entry.get("count", 0))\<close>, where \<open>TypeError\<close> and \<open>ValueError\<close>
  give \<open>0\<close> and any other exception goes through.
\<close>

definition usage_count :: "env \<Rightarrow> json \<Rightarrow> error + int" where
  "usage_count E usage_entry =
     (case json_get usage_entry ''count'' (JInt 0) of
        Inl e \<Rightarrow> Inl e
      | Inr c \<Rightarrow>
          (case py_int (int_max_str_digits E) c of
             Inr n \<Rightarrow> Inr n
           | Inl TypeError \<Rightarrow> Inr 0
           | Inl ValueError \<Rightarrow> Inr 0
           | Inl e \<Rightarrow> Inl e))"

text \<open>The inner loop over \<open>entry["hashes"].items()\<close>, appending to \<open>unused\<close>.\<close>

fun scan_hashes ::
  "env \<Rightarrow> usage_index \<Rightarrow> string \<Rightarrow> (string \<times> location) list
     \<Rightarrow> (string \<times> string \<times> string) list \<Rightarrow> error + (string \<times> string \<times> string) list" where
  "scan_hashes E idx nm [] unused = Inr unused"
| "scan_hashes E idx nm ((hash_value, loc) # rest) unused =
     (case map_of idx (lower nm, hash_value) of
        None \<Rightarrow>
          scan_hashes E idx nm rest
            (unused @ [(nm, if loc_tag loc \<noteq> [] then loc_tag loc else ''(untagged)'', hash_value)])
      | Some usage_entry \<Rightarrow>
          (case usage_count E usage_entry of
             Inl e \<Rightarrow> Inl e
           | Inr count \<Rightarrow>
               if count = 0
               then scan_hashes E idx nm rest
                      (unused @ [(nm, if loc_tag loc \<noteq> [] then loc_tag loc else ''(untagged)'',
                                  hash_value)])
               else scan_hashes E idx nm rest unused))"

text \<open>The outer loop over \<open>registry.items()\<close>.\<close>

fun scan_registry ::
  "env \<Rightarrow> usage_index \<Rightarrow> registry \<Rightarrow> (string \<times> string \<times> string) list
     \<Rightarrow> error + (string \<times> string \<times> string) list" where
  "scan_registry E idx [] unused = Inr unused"
| "scan_registry E idx ((nm, e) # rest) unused =
     (case scan_hashes E idx nm (hashes e) unused of
        Inl err \<Rightarrow> Inl err
      | Inr unused' \<Rightarrow> scan_registry E idx rest unused')"

text \<open>The list \<open>unused\<close> when both loops are done.\<close>

definition unused_revisions ::
  "env \<Rightarrow> json list \<Rightarrow> registry \<Rightarrow> error + (string \<times> string \<times> string) list" where
  "unused_revisions E usage registry =
     (case index_usage E usage [] of
        Inl e \<Rightarrow> Inl e
      | Inr idx \<Rightarrow> scan_registry E idx registry [])"

text \<open>\<open>report_usage\<close> returns nothing; the model returns the lines it prints.\<close>

definition report_usage :: "env \<Rightarrow> json list \<Rightarrow> registry \<Rightarrow> error + string list" where
  "report_usage E usage registry =
     (case unused_revisions E usage registry of
        Inl e \<Rightarrow> Inl e
      | Inr unused \<Rightarrow>
          if unused = []
          then Inr [[], ''usage report: no unused revisions detected (all tracked hashes have usage).'']
          else Inr ([[], ''usage report: revisions with zero running instances:''] @
                    map (\<lambda>(nm, tg, hash_value). ''  - '' @ nm @ '' '' @ tg @ '' ['' @ hash_value @ '']'')
                      (sort unused)))"

subsection \<open>\<open>main\<close>\<close>

text \<open>The value of \<open>parse_args\<close>: the four options of the command line.\<close>

record args =
  arg_root :: string
  arg_write :: bool
  arg_usage :: "string option"
  arg_usage_output :: "string option"

datatype stream = Stdout | Stderr

type_synonym console = "(stream \<times> string) list"

text \<open>
  The handler of \<open>main\<close>: a \<open>BootstrapError\<close> is printed on the standard error and
  gives the exit code \<open>1\<close>; any other exception leaves \<open>main\<close>.
\<close>

definition abort :: "error \<Rightarrow> console \<Rightarrow> (error + int) \<times> console" where
  "abort e out =
     (case e of
        BootstrapError msg \<Rightarrow> (Inr 1, out @ [(Stderr, ''bootstrap: '' @ msg)])
      | _ \<Rightarrow> (Inl e, out))"

definition generated_lines :: "registry \<Rightarrow> path \<Rightarrow> bool \<Rightarrow> console" where
  "generated_lines registry root write =
     (Stdout, ''registry.json generated for '' @ str_int (int (length registry))
                @ '' strategies under '' @ path_str root)
     # (if \<not> write then [(Stdout, ''filesystem left untouched (pass --write to reorganize)'')]
        else [])"

definition main :: "env \<Rightarrow> args \<Rightarrow> world \<Rightarrow> ((error + int) \<times> console) \<times> world" where
  "main E a w =
     (case ensure_dir E (arg_root a) w of
        (Inl e, w1) \<Rightarrow> (abort e [], w1)
      | (Inr root, w1) \<Rightarrow>
          (case discover_modules E root w1 of
             (Inl e, w2) \<Rightarrow> (abort e [], w2)
           | (Inr modules, w2) \<Rightarrow>
               if modules = []
               then (abort (BootstrapError
                              (''no JavaScript strategies found under '' @ path_str root)) [], w2)
               else (case build_registry modules root (arg_write a) w2 of
                       (Inl e, w3) \<Rightarrow> (abort e [], w3)
                     | (Inr registry, w3) \<Rightarrow>
                         (case write_registry E root registry w3 of
                            (Inl e, w4) \<Rightarrow> (abort e [], w4)
                          | (Inr u, w4) \<Rightarrow>
                              (let out = generated_lines registry root (arg_write a)
                               in case read_usage E (arg_usage a) (arg_usage_output a) w4 of
                                    (Inl e, w5) \<Rightarrow> (abort e out, w5)
                                  | (Inr usage_entries, w5) \<Rightarrow>
                                      (case usage_entries of
                                         None \<Rightarrow> ((Inr 0, out), w5)
                                       | Some entries \<Rightarrow>
                                           if entries = [] then ((Inr 0, out), w5)
                                           else (case report_usage E entries registry of
                                                   Inl e \<Rightarrow> (abort e out, w5)
                                                 | Inr lines \<Rightarrow>
                                                     ((Inr 0, out @ map (Pair Stdout) lines),
                                                      w5))))))))"

subsection \<open>Auxiliary notions for the registry\<close>

text \<open>
  The path \<open>build_registry\<close> records for a module: the one \<open>materialize_module\<close>
  returns when the write flag is set, the module's own path otherwise.
\<close>

definition final_path :: "path \<Rightarrow> bool \<Rightarrow> ModuleInfo \<Rightarrow> path" where
  "final_path root write m =
     (if write \<and> \<not> versioned m
      then path_join (path_join (path_join root (name m)) (version m)) (name m @ ''.js'')
      else path m)"

text \<open>The text stored under \<open>"path"\<close>: the final path relative to \<open>root\<close>.\<close>

definition recorded_path :: "path \<Rightarrow> bool \<Rightarrow> ModuleInfo \<Rightarrow> string" where
  "recorded_path root write m =
     (case relative_to (final_path root write m) root of
        Some rel \<Rightarrow> as_posix rel
      | None \<Rightarrow> [])"

text \<open>The body of the first loop for one module, and the loop over a list.\<close>

definition record_module :: "string \<Rightarrow> ModuleInfo \<Rightarrow> registry \<Rightarrow> registry" where
  "record_module p m reg =
     (case setdefault reg (name m) empty_entry of
        (reg1, current) \<Rightarrow>
          AList.update (name m)
            \<lparr>tags = AList.update (version m) (sha256 m) (tags current),
             hashes = AList.update (sha256 m) \<lparr>loc_tag = version m, loc_path = p\<rparr>
                        (hashes current)\<rparr>
            reg1)"

definition folded :: "path \<Rightarrow> bool \<Rightarrow> ModuleInfo list \<Rightarrow> registry \<Rightarrow> registry" where
  "folded root write ms reg = fold (\<lambda>m. record_module (recorded_path root write m) m) ms reg"

text \<open>\<open>registry[k]["tags"][t]\<close> and \<open>registry[k]["hashes"][h]\<close>, when present.\<close>

definition lookup_tag :: "registry \<Rightarrow> string \<Rightarrow> string \<Rightarrow> string option" where
  "lookup_tag reg k t = (case map_of reg k of None \<Rightarrow> None | Some e \<Rightarrow> map_of (tags e) t)"

definition lookup_hash :: "registry \<Rightarrow> string \<Rightarrow> string \<Rightarrow> location option" where
  "lookup_hash reg k h = (case map_of reg k of None \<Rightarrow> None | Some e \<Rightarrow> map_of (hashes e) h)"

text \<open>Both tables of an entry have distinct keys.\<close>

definition entry_ok :: "entry \<Rightarrow> bool" where
  "entry_ok e \<longleftrightarrow> distinct (map fst (tags e)) \<and> distinct (map fst (hashes e))"

text \<open>The last module of a list that declares the version \<open>t\<close> under the name \<open>k\<close>.\<close>

definition last_declared :: "ModuleInfo list \<Rightarrow> string \<Rightarrow> string \<Rightarrow> ModuleInfo option" where
  "last_declared modules k t = find (\<lambda>m. name m = k \<and> version m = t) (rev modules)"

subsection \<open>Lowercase hexadecimal text\<close>

text \<open>
  What the specification calls the lowercase hexadecimal digest, said on its own: the
  text has two digits for every byte, the first for the upper four bits and the second
  for the lower four, each one of \<open>0\<close> to \<open>9\<close> and \<open>a\<close> to \<open>f\<close> with the usual values.
\<close>

definition hex_value :: "char \<Rightarrow> nat option" where
  "hex_value =
     map_of [(CHR ''0'', 0), (CHR ''1'', 1), (CHR ''2'', 2), (CHR ''3'', 3),
             (CHR ''4'', 4), (CHR ''5'', 5), (CHR ''6'', 6), (CHR ''7'', 7),
             (CHR ''8'', 8), (CHR ''9'', 9), (CHR ''a'', 10), (CHR ''b'', 11),
             (CHR ''c'', 12), (CHR ''d'', 13), (CHR ''e'', 14), (CHR ''f'', 15)]"

fun lower_hex_of :: "bytes \<Rightarrow> string \<Rightarrow> bool" where
  "lower_hex_of [] h = (h = [])"
| "lower_hex_of (b # bs) (c1 # c2 # rest) =
     (hex_value c1 = Some ((of_char b :: nat) div 16) \<and>
      hex_value c2 = Some ((of_char b :: nat) mod 16) \<and>
      lower_hex_of bs rest)"
| "lower_hex_of (b # bs) h = False"

subsection \<open>Notions for the usage report\<close>

text \<open>
  The key under which a usage record is indexed, when it has one; the record that
  matches a name of the registry and a hash, which is the last one of the export with
  the lowercased name and the hash as its key; and the tag the report prints.
\<close>

definition usage_key :: "env \<Rightarrow> json \<Rightarrow> (string \<times> string) option" where
  "usage_key E r =
     (case (json_get r ''strategy'' (JStr []), json_get r ''hash'' (JStr [])) of
        (Inr strategy, Inr hash) \<Rightarrow>
          (let nm = lower (strip (py_str (py_repr E) strategy));
               hash_value = strip (py_str (py_repr E) hash)
           in if nm = [] \<or> hash_value = [] then None else Some (nm, hash_value))
      | _ \<Rightarrow> None)"

definition matching_record :: "env \<Rightarrow> json list \<Rightarrow> string \<Rightarrow> string \<Rightarrow> json option" where
  "matching_record E usage k h = find (\<lambda>r. usage_key E r = Some (lower k, h)) (rev usage)"

definition reported_tag :: "location \<Rightarrow> string" where
  "reported_tag loc = (if loc_tag loc \<noteq> [] then loc_tag loc else ''(untagged)'')"

text \<open>The test that puts a hash of the registry on the list \<open>unused\<close>.\<close>

definition unused_cond :: "env \<Rightarrow> usage_index \<Rightarrow> string \<Rightarrow> string \<Rightarrow> bool" where
  "unused_cond E idx nm h =
     (case map_of idx (lower nm, h) of None \<Rightarrow> True | Some r \<Rightarrow> usage_count E r = Inr 0)"

subsection \<open>Sample inputs\<close>

definition empty_world :: world where
  "empty_world = \<lparr>nodes = [], faults = []\<rparr>"

text \<open>Two versions of the module \<open>bar\<close>, found at \<open>/r/a.js\<close> and \<open>/r/b.js\<close>.\<close>

definition bar_v1 :: ModuleInfo where
  "bar_v1 = \<lparr>name = ''bar'', version = ''v1'', path = [''r'', ''a.js''], source = ''x'',
              metadata = JNull, sha256 = ''sha256:aa'', versioned = False\<rparr>"

definition bar_v10 :: ModuleInfo where
  "bar_v10 = \<lparr>name = ''bar'', version = ''v10'', path = [''r'', ''b.js''], source = ''y'',
               metadata = JNull, sha256 = ''sha256:bb'', versioned = False\<rparr>"

definition bar_registry :: registry where
  "bar_registry =
     [(''bar'',
       \<lparr>tags = [(''v1'', ''sha256:aa''), (''v10'', ''sha256:bb''), (''latest'', ''sha256:bb'')],
        hashes = [(''sha256:aa'', \<lparr>loc_tag = ''v1'', loc_path = ''a.js''\<rparr>),
                  (''sha256:bb'', \<lparr>loc_tag = ''v10'', loc_path = ''b.js''\<rparr>)]\<rparr>)]"

text \<open>Two modules \<open>foo\<close> that declare the same version with different contents.\<close>

definition foo_a :: ModuleInfo where
  "foo_a = \<lparr>name = ''foo'', version = ''v1'', path = [''r'', ''a.js''], source = ''x'',
             metadata = JNull, sha256 = ''sha256:aa'', versioned = False\<rparr>"

definition foo_b :: ModuleInfo where
  "foo_b = \<lparr>name = ''foo'', version = ''v1'', path = [''r'', ''b.js''], source = ''y'',
             metadata = JNull, sha256 = ''sha256:bb'', versioned = False\<rparr>"

definition foo_registry :: registry where
  "foo_registry =
     [(''foo'',
       \<lparr>tags = [(''v1'', ''sha256:bb''), (''latest'', ''sha256:bb'')],
        hashes = [(''sha256:aa'', \<lparr>loc_tag = ''v1'', loc_path = ''a.js''\<rparr>),
                  (''sha256:bb'', \<lparr>loc_tag = ''v1'', loc_path = ''b.js''\<rparr>)]\<rparr>)]"

text \<open>Two versions of the module \<open>baz\<close> with the same content.\<close>

definition baz_v1 :: ModuleInfo where
  "baz_v1 = \<lparr>name = ''baz'', version = ''v1'', path = [''r'', ''a.js''], source = ''z'',
              metadata = JNull, sha256 = ''sha256:cc'', versioned = False\<rparr>"

definition baz_v2 :: ModuleInfo where
  "baz_v2 = \<lparr>name = ''baz'', version = ''v2'', path = [''r'', ''b.js''], source = ''z'',
              metadata = JNull, sha256 = ''sha256:cc'', versioned = False\<rparr>"

definition baz_registry :: registry where
  "baz_registry =
     [(''baz'',
       \<lparr>tags = [(''v1'', ''sha256:cc''), (''v2'', ''sha256:cc''), (''latest'', ''sha256:cc'')],
        hashes = [(''sha256:cc'', \<lparr>loc_tag = ''v2'', loc_path = ''b.js''\<rparr>)]\<rparr>)]"

text \<open>A third module that declares the version \<open>v1\<close> of \<open>baz\<close> again, with other content.\<close>

definition baz_other :: ModuleInfo where
  "baz_other = \<lparr>name = ''baz'', version = ''v1'', path = [''r'', ''c.js''], source = ''q'',
                 metadata = JNull, sha256 = ''sha256:dd'', versioned = False\<rparr>"

definition baz_overridden :: registry where
  "baz_overridden =
     [(''baz'',
       \<lparr>tags = [(''v1'', ''sha256:dd''), (''v2'', ''sha256:cc''), (''latest'', ''sha256:cc'')],
        hashes = [(''sha256:cc'', \<lparr>loc_tag = ''v2'', loc_path = ''b.js''\<rparr>),
                  (''sha256:dd'', \<lparr>loc_tag = ''v1'', loc_path = ''c.js''\<rparr>)]\<rparr>)]"

text \<open>
  An environment for the examples: \<open>node\<close> prints a text that stands for the
  metadata of \<open>foo.js\<close> (name \<open>Foo\<close>, version \<open>v1\<close>) and of \<open>anon.js\<close> (no
  name), and fails on every other file; a simple function stands for the digest, so
  that the digest of the one byte \<open>x\<close>, of code 0x78, is that byte.
\<close>

definition sample_env :: env where
  "sample_env =
     \<lparr>expanduser = Some,
      abspath = path_parts,
      run_node = (\<lambda>p. if last p = ''foo.js'' then Completed 0 ''name=Foo version=v1'' []
                      else if last p = ''anon.js'' then Completed 0 ''version=v1'' []
                      else Completed 1 [] ''bootstrap: metadata export missing''),
      sha256_digest = rev,
      json_loads = (\<lambda>s. if s = ''name=Foo version=v1''
                          then Inr (JObj [(''name'', JStr ''Foo''), (''version'', JStr ''v1'')])
                          else if s = ''version=v1'' then Inr (JObj [(''version'', JStr ''v1'')])
                          else Inl ''Expecting value''),
      json_dumps = (\<lambda>reg. ''{}''),
      py_repr = (\<lambda>v. ''?''),
      utf8_decode = Some,
      urlopen = (\<lambda>url. Inl ''unreachable''),
      int_max_str_digits = 4300\<rparr>"

text \<open>
  A tree with the same module twice: at \<open>/r/foo.js\<close> and, one directory too deep,
  at \<open>/r/old/foo/v1/foo.js\<close>.
\<close>

definition nested_path :: path where
  "nested_path = [''r'', ''old'', ''foo'', ''v1'', ''foo.js'']"

definition nested_world :: world where
  "nested_world =
     \<lparr>nodes = [([''r''], Dir), ([''r'', ''foo.js''], File ''x''),
               ([''r'', ''old''], Dir), ([''r'', ''old'', ''foo''], Dir),
               ([''r'', ''old'', ''foo'', ''v1''], Dir),
               (nested_path, File ''x'')],
      faults = []\<rparr>"

definition foo_meta :: json where
  "foo_meta = JObj [(''name'', JStr ''Foo''), (''version'', JStr ''v1'')]"

definition nested_foo :: ModuleInfo where
  "nested_foo =
     \<lparr>name = ''foo'', version = ''v1'', path = nested_path, source = ''x'',
      metadata = foo_meta,
      sha256 = ''sha256:78'',
      versioned = True\<rparr>"

definition flat_foo :: ModuleInfo where
  "flat_foo =
     \<lparr>name = ''foo'', version = ''v1'', path = [''r'', ''foo.js''], source = ''x'',
      metadata = foo_meta,
      sha256 = ''sha256:78'',
      versioned = False\<rparr>"

text \<open>A single module that declares the version \<open>latest\<close>.\<close>

definition solo_latest :: ModuleInfo where
  "solo_latest = \<lparr>name = ''q'', version = ''latest'', path = [''r'', ''q.js''], source = ''x'',
                  metadata = JNull, sha256 = ''sha256:aa'', versioned = False\<rparr>"

definition solo_registry :: registry where
  "solo_registry =
     [(''q'', \<lparr>tags = [(''latest'', ''sha256:aa'')],
              hashes = [(''sha256:aa'', \<lparr>loc_tag = ''latest'', loc_path = ''q.js''\<rparr>)]\<rparr>)]"



text \<open>
  Usage records for the module \<open>bar\<close>: three running instances of one hash, a count
  given as the text \<open>0\<close> for the other, and a negative count.
\<close>

definition neg_usage :: json where
  "neg_usage = JObj [(''strategy'', JStr ''Bar''), (''hash'', JStr ''sha256:aa''), (''count'', JInt (- 1))]"

definition zero_usage :: json where
  "zero_usage = JObj [(''strategy'', JStr ''bar''), (''hash'', JStr ''sha256:bb''), (''count'', JStr ''0'')]"

definition live_usage :: json where
  "live_usage = JObj [(''strategy'', JStr ''bar''), (''hash'', JStr ''sha256:aa''), (''count'', JInt 3)]"



text \<open>
  A tree whose only module, \<open>anon.js\<close>, declares no name, next to an old manifest,
  and a run on it with the write flag.
\<close>

definition anon_world :: world where
  "anon_world =
     \<lparr>nodes = [([''r''], Dir), ([''r'', ''anon.js''], File ''y''),
               ([''r'', ''registry.json''], File ''old'')],
      faults = []\<rparr>"

definition anon_args :: args where
  "anon_args = \<lparr>arg_root = ''/r'', arg_write = True, arg_usage = None, arg_usage_output = None\<rparr>"

section \<open>Verification\<close>

subsection \<open>Sorting and the greatest element\<close>

lemma sorted_le_last:
  fixes ys :: "'a::linorder list"
  shows "sorted ys \<Longrightarrow> y \<in> set ys \<Longrightarrow> y \<le> last ys"
  by (induction ys) auto

lemma sorted_last_Max:
  fixes ys :: "'a::linorder list"
  assumes "sorted ys" "ys \<noteq> []"
  shows "last ys = Max (set ys)"
proof -
  have "Max (set ys) = last ys"
  proof (rule Max_eqI)
    show "finite (set ys)" by simp
    show "y \<le> last ys" if "y \<in> set ys" for y using assms(1) that by (rule sorted_le_last)
    show "last ys \<in> set ys" using assms(2) by (rule last_in_set)
  qed
  then show ?thesis by simp
qed

lemma sort_eq_Nil:
  fixes xs :: "'a::linorder list"
  shows "sort xs = [] \<longleftrightarrow> xs = []"
  by (metis length_0_conv length_sort)

lemma last_sort_Max:
  fixes xs :: "'a::linorder list"
  assumes "xs \<noteq> []"
  shows "last (sort xs) = Max (set xs)"
proof -
  have "sort xs \<noteq> []" using assms by (simp only: sort_eq_Nil not_False_eq_True)
  moreover have "sorted (sort xs)" by (rule sorted_sort)
  ultimately have "last (sort xs) = Max (set (sort xs))" by (rule sorted_last_Max[rotated])
  then show ?thesis by simp
qed

subsection \<open>The first loop of \<open>build_registry\<close>\<close>

lemma materialize_module_path:
  "materialize_module root m w = (Inr p, w1) \<Longrightarrow> p = final_path root True m"
  by (auto simp: materialize_module_def final_path_def Let_def
           split: if_splits prod.splits sum.splits)

lemma fold_modules_Cons:
  assumes "fold_modules root write (m # ms) reg w = (Inr reg', w')"
  shows "\<exists>w1 rel. relative_to (final_path root write m) root = Some rel \<and>
           fold_modules root write ms (record_module (as_posix rel) m reg) w1 = (Inr reg', w')"
proof -
  obtain reg1 cur where sd: "setdefault reg (name m) empty_entry = (reg1, cur)"
    by (cases "setdefault reg (name m) empty_entry")
  show ?thesis
  proof (cases "write")
    case True
    obtain r w1 where mat: "materialize_module root m w = (r, w1)"
      by (cases "materialize_module root m w")
    show ?thesis
    proof (cases r)
      case (Inl e)
      then show ?thesis using assms sd True mat by simp
    next
      case (Inr mp)
      then have mp: "mp = final_path root write m"
        using materialize_module_path[of root m w mp w1] mat True by simp
      show ?thesis
      proof (cases "relative_to mp root")
        case None
        then show ?thesis using assms sd True mat Inr by simp
      next
        case (Some rel)
        then show ?thesis using assms sd True mat Inr mp
          by (auto simp: record_module_def)
      qed
    qed
  next
    case False
    then have fp: "final_path root write m = path m" by (simp add: final_path_def)
    show ?thesis
    proof (cases "relative_to (path m) root")
      case None
      then show ?thesis using assms sd False by simp
    next
      case (Some rel)
      then show ?thesis using assms sd False fp
        by (auto simp: record_module_def)
    qed
  qed
qed

lemma fold_modules_folded:
  "fold_modules root write ms reg w = (Inr reg', w') \<Longrightarrow>
     reg' = folded root write ms reg \<and>
     (\<forall>m \<in> set ms. relative_to (final_path root write m) root \<noteq> None)"
proof (induction ms arbitrary: reg w)
  case Nil
  then show ?case by (simp add: folded_def)
next
  case (Cons m ms)
  from fold_modules_Cons[OF Cons.prems] obtain w1 rel where
    rel: "relative_to (final_path root write m) root = Some rel" and
    step: "fold_modules root write ms (record_module (as_posix rel) m reg) w1 = (Inr reg', w')"
    by blast
  have rp: "recorded_path root write m = as_posix rel"
    using rel by (simp add: recorded_path_def)
  from Cons.IH[OF step] show ?case
    using rp rel by (simp add: folded_def)
qed

lemma folded_snoc:
  "folded root write (ms @ [m]) reg =
     record_module (recorded_path root write m) m (folded root write ms reg)"
  by (simp add: folded_def)

lemma map_of_record_module:
  "map_of (record_module p m reg) k =
     (if k = name m
      then Some \<lparr>tags = AList.update (version m) (sha256 m)
                         (case map_of reg k of None \<Rightarrow> [] | Some e \<Rightarrow> tags e),
                 hashes = AList.update (sha256 m) \<lparr>loc_tag = version m, loc_path = p\<rparr>
                         (case map_of reg k of None \<Rightarrow> [] | Some e \<Rightarrow> hashes e)\<rparr>
      else map_of reg k)"
  by (auto simp: record_module_def setdefault_def empty_entry_def update_conv' map_add_def
           split: option.splits)

lemma distinct_record_module:
  "distinct (map fst reg) \<Longrightarrow> distinct (map fst (record_module p m reg))"
  by (auto simp: record_module_def setdefault_def map_of_eq_None_iff
           intro!: distinct_update split: option.splits)

lemma distinct_folded:
  "distinct (map fst reg) \<Longrightarrow> distinct (map fst (folded root write ms reg))"
  by (induction ms rule: rev_induct) (simp_all add: folded_def distinct_record_module)

lemma lookup_tag_record_module:
  "lookup_tag (record_module p m reg) k t =
     (if k = name m \<and> t = version m then Some (sha256 m) else lookup_tag reg k t)"
  by (auto simp: lookup_tag_def map_of_record_module update_conv' split: option.splits)

lemma lookup_hash_record_module:
  "lookup_hash (record_module p m reg) k h =
     (if k = name m \<and> h = sha256 m then Some \<lparr>loc_tag = version m, loc_path = p\<rparr>
      else lookup_hash reg k h)"
  by (auto simp: lookup_hash_def map_of_record_module update_conv' split: option.splits)

lemma lookup_tag_folded:
  "lookup_tag (folded root write ms []) k t =
     map_option sha256 (find (\<lambda>m. name m = k \<and> version m = t) (rev ms))"
  by (induction ms rule: rev_induct)
     (auto simp: folded_snoc lookup_tag_record_module, simp add: folded_def lookup_tag_def)

lemma lookup_hash_folded:
  "lookup_hash (folded root write ms []) k h =
     map_option (\<lambda>m. \<lparr>loc_tag = version m, loc_path = recorded_path root write m\<rparr>)
       (find (\<lambda>m. name m = k \<and> sha256 m = h) (rev ms))"
  by (induction ms rule: rev_induct)
     (auto simp: folded_snoc lookup_hash_record_module, simp add: folded_def lookup_hash_def)

lemma keys_record_module:
  "fst ` set (record_module p m reg) = insert (name m) (fst ` set reg)"
proof (cases "map_of reg (name m)")
  case None
  then show ?thesis by (simp add: record_module_def setdefault_def dom_update)
next
  case (Some e)
  then have "name m \<in> fst ` set reg" by (metis map_of_eq_None_iff option.distinct(1))
  then show ?thesis using Some by (auto simp: record_module_def setdefault_def dom_update)
qed

lemma keys_folded:
  "fst ` set (folded root write ms reg) = name ` set ms \<union> fst ` set reg"
proof (induction ms rule: rev_induct)
  case Nil
  then show ?case by (simp add: folded_def)
next
  case (snoc m ms)
  have "fst ` set (folded root write (ms @ [m]) reg) = insert (name m) (fst ` set (folded root write ms reg))"
    by (simp only: folded_snoc keys_record_module)
  then show ?case using snoc by auto
qed

lemma tags_nonempty_record_module:
  assumes "distinct (map fst reg)" "\<forall>(k, e) \<in> set reg. tags e \<noteq> []"
  shows "\<forall>(k, e) \<in> set (record_module p m reg). tags e \<noteq> []"
proof -
  have d: "distinct (map fst (record_module p m reg))" using assms(1) by (rule distinct_record_module)
  show ?thesis
  proof (clarify)
    fix k e assume mem: "(k, e) \<in> set (record_module p m reg)" and emp: "tags e = []"
    then have look: "map_of (record_module p m reg) k = Some e" using d by simp
    show False
    proof (cases "k = name m")
      case True
      then show ?thesis using look emp by (auto simp: map_of_record_module)
    next
      case False
      then have "map_of reg k = Some e" using look by (simp add: map_of_record_module)
      then have "(k, e) \<in> set reg" by (rule map_of_SomeD)
      then show ?thesis using assms(2) emp by auto
    qed
  qed
qed

lemma tags_nonempty_folded:
  "\<forall>(k, e) \<in> set (folded root write ms []). tags e \<noteq> []"
proof (induction ms rule: rev_induct)
  case Nil
  then show ?case by (simp add: folded_def)
next
  case (snoc m ms)
  have "distinct (map fst (folded root write ms []))" by (simp add: distinct_folded)
  then show ?case unfolding folded_snoc using snoc by (rule tags_nonempty_record_module)
qed

subsection \<open>The second loop of \<open>build_registry\<close>\<close>

lemma pick_latest_tag_total: "\<exists>h. pick_latest_tag tgs = Inr h"
proof -
  let ?cs = "filter (\<lambda>t. t \<noteq> ''latest'') (map fst tgs)"
  show ?thesis
  proof (cases "?cs = []")
    case True
    then show ?thesis by (simp add: pick_latest_tag_def)
  next
    case False
    then have "sort ?cs \<noteq> []" by (simp only: sort_eq_Nil not_False_eq_True)
    then have "last (sort ?cs) \<in> set (sort ?cs)" by (rule last_in_set)
    then have "last (sort ?cs) \<in> set ?cs" by (simp only: set_sort)
    then have "last (sort ?cs) \<in> set (map fst tgs)" by (simp only: set_filter mem_Collect_eq)
    then have "last (sort ?cs) \<in> fst ` set tgs" by (simp only: set_map)
    then have "map_of tgs (last (sort ?cs)) \<noteq> None" by (simp only: map_of_eq_None_iff not_not)
    then obtain h where "map_of tgs (last (sort ?cs)) = Some h" by blast
    then show ?thesis using False by (simp add: pick_latest_tag_def)
  qed
qed

lemma set_latest_total: "\<exists>reg'. set_latest reg = Inr reg'"
proof (induction reg)
  case Nil
  then show ?case by simp
next
  case (Cons a reg)
  obtain k e where a: "a = (k, e)" by (cases a)
  obtain h where "pick_latest_tag (tags e) = Inr h" using pick_latest_tag_total by blast
  then show ?case using Cons a by auto
qed

lemma set_latest_entries:
  "set_latest reg = Inr reg' \<Longrightarrow> (k, e') \<in> set reg' \<Longrightarrow>
     \<exists>e. (k, e) \<in> set reg \<and> hashes e' = hashes e \<and>
         (if tags e \<noteq> []
          then \<exists>h. pick_latest_tag (tags e) = Inr h \<and> tags e' = AList.update ''latest'' h (tags e)
          else tags e' = [])"
proof (induction reg arbitrary: reg')
  case Nil
  then show ?case by simp
next
  case (Cons a reg)
  obtain k0 e0 where a: "a = (k0, e0)" by (cases a)
  obtain rest' where rest: "set_latest reg = Inr rest'" using set_latest_total by blast
  obtain h where h: "pick_latest_tag (tags e0) = Inr h" using pick_latest_tag_total by blast
  show ?case
  proof (cases "tags e0 \<noteq> []")
    case True
    then have reg': "reg' = (k0, e0\<lparr>tags := AList.update ''latest'' h (tags e0)\<rparr>) # rest'"
      using Cons.prems(1) a rest h by simp
    show ?thesis
    proof (cases "(k, e') \<in> set rest'")
      case True
      then show ?thesis using Cons.IH[OF rest True] by auto
    next
      case False
      then have "k = k0" "e' = e0\<lparr>tags := AList.update ''latest'' h (tags e0)\<rparr>"
        using Cons.prems(2) reg' by auto
      then show ?thesis using a h \<open>tags e0 \<noteq> []\<close> by auto
    qed
  next
    case False
    then have reg': "reg' = (k0, e0) # rest'"
      using Cons.prems(1) a rest by simp
    show ?thesis
    proof (cases "(k, e') \<in> set rest'")
      case True
      then show ?thesis using Cons.IH[OF rest True] by auto
    next
      case False
      then have "k = k0" "e' = e0"
        using Cons.prems(2) reg' by auto
      then show ?thesis using a \<open>\<not> tags e0 \<noteq> []\<close> by auto
    qed
  qed
qed

lemma set_latest_keys: "set_latest reg = Inr reg' \<Longrightarrow> map fst reg' = map fst reg"
  by (induction reg arbitrary: reg') (auto split: if_splits sum.splits)

lemma pick_latest_tag_spec:
  assumes "pick_latest_tag tgs = Inr h" "tgs \<noteq> []"
  shows "(let cands = {t \<in> fst ` set tgs. t \<noteq> ''latest''}
          in if cands \<noteq> {} then map_of tgs (Max cands) = Some h
             else map_of tgs ''latest'' = Some h)"
proof -
  let ?cs = "filter (\<lambda>t. t \<noteq> ''latest'') (map fst tgs)"
  have set_cs: "set ?cs = {t \<in> fst ` set tgs. t \<noteq> ''latest''}" by auto
  show ?thesis
  proof (cases "?cs = []")
    case True
    then have "set ?cs = {}" by (simp only: set_empty)
    then have emp: "{t \<in> fst ` set tgs. t \<noteq> ''latest''} = {}" using set_cs by simp
    obtain t h0 rest where tgs: "tgs = (t, h0) # rest" using assms(2) by (cases tgs) auto
    have "t = ''latest''" using emp tgs by auto
    moreover have "h = h0" using assms(1) True tgs by (simp add: pick_latest_tag_def)
    ultimately have "map_of tgs ''latest'' = Some h" using tgs by simp
    then show ?thesis using emp by (simp add: Let_def)
  next
    case False
    then have "set ?cs \<noteq> {}" by (simp only: set_empty not_False_eq_True)
    then have ne: "{t \<in> fst ` set tgs. t \<noteq> ''latest''} \<noteq> {}" using set_cs by simp
    have "last (sort ?cs) = Max (set ?cs)" using False by (rule last_sort_Max)
    moreover have "map_of tgs (last (sort ?cs)) = Some h"
      using assms(1) False by (simp add: pick_latest_tag_def split: option.splits)
    ultimately have "map_of tgs (Max (set ?cs)) = Some h" by simp
    then show ?thesis using ne set_cs by (simp add: Let_def)
  qed
qed

lemma find_SomeD: "find P xs = Some x \<Longrightarrow> x \<in> set xs \<and> P x"
  by (induction xs) (auto split: if_splits)

subsection \<open>The \<open>latest\<close> tag\<close>

text \<open>
  Claim C2.  In a registry that \<open>build_registry\<close> returns for a non-empty list of
  modules there is at least one entry, and the \<open>tags\<close> of every entry have the key
  \<open>latest\<close>.  Its value is the hash bound to the greatest tag other than \<open>latest\<close>
  in the lexicographic order of strings; when the entry has no other tag, it is the hash
  of a module of that name that declared the version \<open>latest\<close>, which is the value the
  tags already held.
\<close>

theorem latest_tag_resolution:
  assumes build: "build_registry modules root write w = (Inr reg, w')"
    and nonempty: "modules \<noteq> []"
  shows "reg \<noteq> [] \<and>
         (\<forall>(k, e) \<in> set reg.
            \<exists>h. map_of (tags e) ''latest'' = Some h \<and>
                (let cands = {t \<in> fst ` set (tags e). t \<noteq> ''latest''}
                 in if cands \<noteq> {} then map_of (tags e) (Max cands) = Some h
                    else \<exists>m \<in> set modules.
                           name m = k \<and> version m = ''latest'' \<and> sha256 m = h))"
proof -
  obtain reg0 where fold0: "fold_modules root write modules [] w = (Inr reg0, w')"
    and latest: "set_latest reg0 = Inr reg"
    using build by (auto simp: build_registry_def split: prod.splits sum.splits)
  have reg0: "reg0 = folded root write modules []"
    using fold_modules_folded[OF fold0] by simp
  have dist: "distinct (map fst reg0)" unfolding reg0 by (simp add: distinct_folded)
  have "fst ` set reg0 = name ` set modules" unfolding reg0 by (simp add: keys_folded)
  then have "reg0 \<noteq> []" using nonempty by auto
  moreover have "map fst reg = map fst reg0" using latest by (rule set_latest_keys)
  ultimately have part1: "reg \<noteq> []" by auto
  have part2: "\<exists>h. map_of (tags e) ''latest'' = Some h \<and>
                (let cands = {t \<in> fst ` set (tags e). t \<noteq> ''latest''}
                 in if cands \<noteq> {} then map_of (tags e) (Max cands) = Some h
                    else \<exists>m \<in> set modules.
                           name m = k \<and> version m = ''latest'' \<and> sha256 m = h)"
    if mem: "(k, e) \<in> set reg" for k e
  proof -
    from set_latest_entries[OF latest mem] obtain e0 where
      e0: "(k, e0) \<in> set reg0" and
      upd: "if tags e0 \<noteq> []
            then \<exists>h. pick_latest_tag (tags e0) = Inr h \<and> tags e = AList.update ''latest'' h (tags e0)
            else tags e = []"
      by blast
    have ne0: "tags e0 \<noteq> []" using tags_nonempty_folded[of root "write" modules] e0 reg0 by auto
    then obtain h where pick: "pick_latest_tag (tags e0) = Inr h"
      and te: "tags e = AList.update ''latest'' h (tags e0)" using upd by auto
    let ?c0 = "{t \<in> fst ` set (tags e0). t \<noteq> ''latest''}"
    have cands: "{t \<in> fst ` set (tags e). t \<noteq> ''latest''} = ?c0"
      unfolding te by (auto simp: dom_update)
    have look: "map_of (tags e) ''latest'' = Some h" unfolding te by (simp add: update_conv')
    have spec0: "if ?c0 \<noteq> {} then map_of (tags e0) (Max ?c0) = Some h
                 else map_of (tags e0) ''latest'' = Some h"
      using pick_latest_tag_spec[OF pick ne0] by (simp add: Let_def)
    have rest: "if ?c0 \<noteq> {} then map_of (tags e) (Max ?c0) = Some h
                 else \<exists>m \<in> set modules. name m = k \<and> version m = ''latest'' \<and> sha256 m = h"
    proof (cases "?c0 = {}")
      case True
      then have "map_of (tags e0) ''latest'' = Some h" using spec0 by simp
      moreover have "map_of reg0 k = Some e0" using e0 dist by simp
      ultimately have "lookup_tag (folded root write modules []) k ''latest'' = Some h"
        using reg0 by (simp add: lookup_tag_def)
      then obtain m where "find (\<lambda>m. name m = k \<and> version m = ''latest'') (rev modules) = Some m"
        and "sha256 m = h"
        unfolding lookup_tag_folded by auto
      then have "m \<in> set modules \<and> name m = k \<and> version m = ''latest'' \<and> sha256 m = h"
        using find_SomeD[of "\<lambda>m. name m = k \<and> version m = ''latest''" "rev modules" m] by simp
      then show ?thesis using True by auto
    next
      case False
      have fin: "finite ?c0" by simp
      have "Max ?c0 \<in> ?c0" using fin False by (rule Max_in)
      then have "Max ?c0 \<noteq> ''latest''" by simp
      then have "map_of (tags e) (Max ?c0) = map_of (tags e0) (Max ?c0)"
        unfolding te by (simp add: update_conv')
      then show ?thesis using False spec0 by simp
    qed
    show ?thesis using look rest cands by (simp add: Let_def)
  qed
  show ?thesis using part1 part2 by blast
qed

theorem latest_tag_resolution_witness:
  "build_registry [bar_v1, bar_v10] [''r''] False empty_world = (Inr bar_registry, empty_world) \<and>
   [bar_v1, bar_v10] \<noteq> [] \<and>
   bar_registry \<noteq> [] \<and>
   (\<exists>h. map_of (tags (snd (hd bar_registry))) ''latest'' = Some h \<and>
        map_of (tags (snd (hd bar_registry))) ''v10'' = Some h)"
proof -
  have built: "build_registry [bar_v1, bar_v10] [''r''] False empty_world
                 = (Inr bar_registry, empty_world)"
    by code_simp
  have nonempty: "[bar_v1, bar_v10] \<noteq> []" by simp
  have mem: "(''bar'', snd (hd bar_registry)) \<in> set bar_registry"
    by (simp add: bar_registry_def)
  have cands: "{t \<in> fst ` set (tags (snd (hd bar_registry))). t \<noteq> ''latest''} = {''v1'', ''v10''}"
    by (auto simp: bar_registry_def)
  have greatest: "Max {''v1'', ''v10''} = ''v10''" by simp
  from latest_tag_resolution[OF built nonempty] mem
  have "\<exists>h. map_of (tags (snd (hd bar_registry))) ''latest'' = Some h \<and>
            (let cands = {t \<in> fst ` set (tags (snd (hd bar_registry))). t \<noteq> ''latest''}
             in if cands \<noteq> {} then map_of (tags (snd (hd bar_registry))) (Max cands) = Some h
                else \<exists>m \<in> set [bar_v1, bar_v10].
                       name m = ''bar'' \<and> version m = ''latest'' \<and> sha256 m = h)"
    by blast
  then have "\<exists>h. map_of (tags (snd (hd bar_registry))) ''latest'' = Some h \<and>
                 map_of (tags (snd (hd bar_registry))) ''v10'' = Some h"
    unfolding cands greatest Let_def by simp
  then show ?thesis
    using built nonempty latest_tag_resolution[OF built nonempty] by blast
qed

subsection \<open>What the built registry holds\<close>

lemma build_registry_Inr:
  assumes "build_registry modules root write w = (Inr reg, w')"
  shows "set_latest (folded root write modules []) = Inr reg \<and>
         (\<forall>m \<in> set modules. relative_to (final_path root write m) root \<noteq> None)"
proof -
  obtain reg0 where fold0: "fold_modules root write modules [] w = (Inr reg0, w')"
    and latest: "set_latest reg0 = Inr reg"
    using assms by (auto simp: build_registry_def split: prod.splits sum.splits)
  show ?thesis using fold_modules_folded[OF fold0] latest by simp
qed

lemma set_latest_distinct:
  "set_latest reg = Inr reg' \<Longrightarrow> distinct (map fst reg) \<Longrightarrow> distinct (map fst reg')"
  by (simp add: set_latest_keys)

lemma set_latest_lookup_hash:
  assumes "set_latest reg = Inr reg'" "distinct (map fst reg)"
  shows "lookup_hash reg' k h = lookup_hash reg k h"
proof (cases "map_of reg' k")
  case None
  then have "k \<notin> fst ` set reg'" by (simp add: map_of_eq_None_iff)
  then have "k \<notin> fst ` set reg" using set_latest_keys[OF assms(1)] by (metis set_map)
  then have "map_of reg k = None" by (simp add: map_of_eq_None_iff)
  then show ?thesis using None by (simp add: lookup_hash_def)
next
  case (Some e')
  then have "(k, e') \<in> set reg'" by (rule map_of_SomeD)
  from set_latest_entries[OF assms(1) this] obtain e where
    "(k, e) \<in> set reg" "hashes e' = hashes e" by blast
  then have "map_of reg k = Some e" "hashes e' = hashes e" using assms(2) by simp_all
  then show ?thesis using Some by (simp add: lookup_hash_def)
qed

lemma set_latest_lookup_tag:
  assumes "set_latest reg = Inr reg'" "distinct (map fst reg)" "t \<noteq> ''latest''"
  shows "lookup_tag reg' k t = lookup_tag reg k t"
proof (cases "map_of reg' k")
  case None
  then have "k \<notin> fst ` set reg'" by (simp add: map_of_eq_None_iff)
  then have "k \<notin> fst ` set reg" using set_latest_keys[OF assms(1)] by (metis set_map)
  then have "map_of reg k = None" by (simp add: map_of_eq_None_iff)
  then show ?thesis using None by (simp add: lookup_tag_def)
next
  case (Some e')
  then have "(k, e') \<in> set reg'" by (rule map_of_SomeD)
  from set_latest_entries[OF assms(1) this] obtain e where
    e: "(k, e) \<in> set reg" and
    upd: "if tags e \<noteq> []
          then \<exists>h. pick_latest_tag (tags e) = Inr h \<and> tags e' = AList.update ''latest'' h (tags e)
          else tags e' = []" by blast
  have "map_of (tags e') t = map_of (tags e) t"
    using upd assms(3) by (cases "tags e = []") (auto simp: update_conv')
  moreover have "map_of reg k = Some e" using e assms(2) by simp
  ultimately show ?thesis using Some by (simp add: lookup_tag_def)
qed

lemma built_lookup_hash:
  assumes "build_registry modules root write w = (Inr reg, w')"
  shows "lookup_hash reg k h =
     map_option (\<lambda>m. \<lparr>loc_tag = version m, loc_path = recorded_path root write m\<rparr>)
       (find (\<lambda>m. name m = k \<and> sha256 m = h) (rev modules))"
  using build_registry_Inr[OF assms] set_latest_lookup_hash[of "folded root write modules []" reg k h]
  by (simp add: distinct_folded lookup_hash_folded)

lemma built_lookup_tag:
  assumes "build_registry modules root write w = (Inr reg, w')" "t \<noteq> ''latest''"
  shows "lookup_tag reg k t =
     map_option sha256 (find (\<lambda>m. name m = k \<and> version m = t) (rev modules))"
  using build_registry_Inr[OF assms(1)] assms(2)
    set_latest_lookup_tag[of "folded root write modules []" reg t k]
  by (simp add: distinct_folded lookup_tag_folded)

lemma built_distinct:
  assumes "build_registry modules root write w = (Inr reg, w')"
  shows "distinct (map fst reg)"
  using build_registry_Inr[OF assms] set_latest_keys[of "folded root write modules []" reg]
  by (simp add: distinct_folded)

lemma find_exists: "\<exists>x \<in> set xs. P x \<Longrightarrow> \<exists>y. find P xs = Some y"
  by (induction xs) auto


subsection \<open>Hashes and tags\<close>

lemma built_entry:
  assumes build: "build_registry modules root write w = (Inr reg, w')"
    and mem: "(k, e) \<in> set reg"
  shows "\<exists>e0 h. map_of (folded root write modules []) k = Some e0 \<and> tags e0 \<noteq> [] \<and>
           pick_latest_tag (tags e0) = Inr h \<and>
           tags e = AList.update ''latest'' h (tags e0) \<and> hashes e = hashes e0"
proof -
  have sl: "set_latest (folded root write modules []) = Inr reg"
    using build_registry_Inr[OF build] by simp
  from set_latest_entries[OF sl mem] obtain e0 where
    e0: "(k, e0) \<in> set (folded root write modules [])" and he: "hashes e = hashes e0" and
    upd: "if tags e0 \<noteq> []
          then \<exists>h. pick_latest_tag (tags e0) = Inr h \<and> tags e = AList.update ''latest'' h (tags e0)
          else tags e = []"
    by blast
  have ne0: "tags e0 \<noteq> []" using tags_nonempty_folded[of root "write" modules] e0 by auto
  have "map_of (folded root write modules []) k = Some e0"
    using e0 distinct_folded[of "[]" root "write" modules] by simp
  then show ?thesis using ne0 upd he by auto
qed

lemma find_None_iff': "find P xs = None \<longleftrightarrow> (\<forall>x \<in> set xs. \<not> P x)"
  by (induction xs) auto

lemma folded_tag_keys:
  assumes "map_of (folded root write modules []) k = Some e0"
  shows "fst ` set (tags e0) = {version m |m. m \<in> set modules \<and> name m = k}"
proof -
  have look: "map_of (tags e0) t = map_option sha256 (last_declared modules k t)" for t
    using lookup_tag_folded[of root "write" modules k t] assms
    by (simp add: lookup_tag_def last_declared_def)
  have "t \<in> fst ` set (tags e0) \<longleftrightarrow> (\<exists>m \<in> set modules. name m = k \<and> version m = t)" for t
  proof -
    have "t \<in> fst ` set (tags e0) \<longleftrightarrow> map_of (tags e0) t \<noteq> None"
      by (simp add: map_of_eq_None_iff)
    also have "\<dots> \<longleftrightarrow> last_declared modules k t \<noteq> None" by (simp add: look)
    also have "\<dots> \<longleftrightarrow> (\<exists>m \<in> set modules. name m = k \<and> version m = t)"
      unfolding last_declared_def find_None_iff' by auto
    finally show ?thesis .
  qed
  then have "fst ` set (tags e0) = {t. \<exists>m \<in> set modules. name m = k \<and> version m = t}"
    by (intro set_eqI) simp
  also have "\<dots> = {version m |m. m \<in> set modules \<and> name m = k}" by blast
  finally show ?thesis .
qed

text \<open>
  Claim C1, as amended.  In a registry that \<open>build_registry\<close> returns, a key of the
  \<open>hashes\<close> of a name is the value of one of the \<open>tags\<close> of that name (possibly of
  \<open>latest\<close>) if and only if it is the content hash of the last module of the list that
  declares some version under that name, where a declared version \<open>latest\<close> counts only
  when no module of that name declares another version.
\<close>

theorem hashes_have_tags:
  assumes build: "build_registry modules root write w = (Inr reg, w')"
    and entry: "(k, e) \<in> set reg"
    and key: "h \<in> fst ` set (hashes e)"
  shows "(\<exists>t. map_of (tags e) t = Some h) \<longleftrightarrow>
         (\<exists>t m. last_declared modules k t = Some m \<and> sha256 m = h \<and>
                (t = ''latest'' \<longrightarrow> (\<forall>x \<in> set modules. name x = k \<longrightarrow> version x = ''latest'')))"
proof -
  from built_entry[OF build entry] obtain e0 hl where
    e0: "map_of (folded root write modules []) k = Some e0" and ne0: "tags e0 \<noteq> []" and
    pick: "pick_latest_tag (tags e0) = Inr hl" and
    te: "tags e = AList.update ''latest'' hl (tags e0)"
    by blast
  have look0: "map_of (tags e0) t = map_option sha256 (last_declared modules k t)" for t
    using lookup_tag_folded[of root "write" modules k t] e0
    by (simp add: lookup_tag_def last_declared_def)
  have look: "t \<noteq> ''latest'' \<Longrightarrow> map_of (tags e) t = map_option sha256 (last_declared modules k t)" for t
    unfolding te by (simp add: update_conv' look0)
  have latest: "map_of (tags e) ''latest'' = Some hl" unfolding te by (simp add: update_conv')
  let ?c0 = "{t \<in> fst ` set (tags e0). t \<noteq> ''latest''}"
  have spec0: "if ?c0 \<noteq> {} then map_of (tags e0) (Max ?c0) = Some hl
               else map_of (tags e0) ''latest'' = Some hl"
    using pick_latest_tag_spec[OF pick ne0] by (simp add: Let_def)
  have keys: "fst ` set (tags e0) = {version m |m. m \<in> set modules \<and> name m = k}"
    using e0 by (rule folded_tag_keys)
  have only_latest: "?c0 = {} \<longleftrightarrow> (\<forall>x \<in> set modules. name x = k \<longrightarrow> version x = ''latest'')"
    unfolding keys by auto
  show ?thesis
  proof
    assume "\<exists>t. map_of (tags e) t = Some h"
    then obtain t where t: "map_of (tags e) t = Some h" by blast
    show "\<exists>t m. last_declared modules k t = Some m \<and> sha256 m = h \<and>
                (t = ''latest'' \<longrightarrow> (\<forall>x \<in> set modules. name x = k \<longrightarrow> version x = ''latest''))"
    proof (cases "t = ''latest''")
      case False
      then have "map_option sha256 (last_declared modules k t) = Some h" using t look by simp
      then show ?thesis using False by auto
    next
      case True
      then have hl: "hl = h" using t latest by simp
      show ?thesis
      proof (cases "?c0 = {}")
        case True
        then have "map_option sha256 (last_declared modules k ''latest'') = Some h"
          using spec0 hl look0 by simp
        then show ?thesis using True only_latest by auto
      next
        case False
        have "Max ?c0 \<in> ?c0" using False by (intro Max_in) simp_all
        then have nl: "Max ?c0 \<noteq> ''latest''" by simp
        have "map_option sha256 (last_declared modules k (Max ?c0)) = Some h"
          using spec0 False hl look0 by simp
        then show ?thesis using nl by auto
      qed
    qed
  next
    assume "\<exists>t m. last_declared modules k t = Some m \<and> sha256 m = h \<and>
                (t = ''latest'' \<longrightarrow> (\<forall>x \<in> set modules. name x = k \<longrightarrow> version x = ''latest''))"
    then obtain t m where m: "last_declared modules k t = Some m" "sha256 m = h"
      and tl: "t = ''latest'' \<longrightarrow> (\<forall>x \<in> set modules. name x = k \<longrightarrow> version x = ''latest'')"
      by blast
    show "\<exists>t. map_of (tags e) t = Some h"
    proof (cases "t = ''latest''")
      case False
      then have "map_of (tags e) t = Some h" using look m by simp
      then show ?thesis by blast
    next
      case True
      then have "?c0 = {}" using tl only_latest by simp
      then have "map_of (tags e0) ''latest'' = Some hl" using spec0 by simp
      then have "hl = h" using look0[of "''latest''"] m True by simp
      then show ?thesis using latest by blast
    qed
  qed
qed

theorem hashes_have_tags_witness:
  "build_registry [solo_latest] [''r''] False empty_world = (Inr solo_registry, empty_world) \<and>
   (''q'', snd (hd solo_registry)) \<in> set solo_registry \<and>
   ''sha256:aa'' \<in> fst ` set (hashes (snd (hd solo_registry))) \<and>
   last_declared [solo_latest] ''q'' ''latest'' = Some solo_latest \<and>
   (\<exists>t. map_of (tags (snd (hd solo_registry))) t = Some ''sha256:aa'')"
proof -
  have built: "build_registry [solo_latest] [''r''] False empty_world
                 = (Inr solo_registry, empty_world)"
    by code_simp
  have entry: "(''q'', snd (hd solo_registry)) \<in> set solo_registry"
    by (simp add: solo_registry_def)
  have key: "''sha256:aa'' \<in> fst ` set (hashes (snd (hd solo_registry)))"
    by (simp add: solo_registry_def)
  have last: "last_declared [solo_latest] ''q'' ''latest'' = Some solo_latest"
    by (simp add: last_declared_def solo_latest_def)
  have "\<exists>t m. last_declared [solo_latest] ''q'' t = Some m \<and> sha256 m = ''sha256:aa'' \<and>
          (t = ''latest'' \<longrightarrow> (\<forall>x \<in> set [solo_latest]. name x = ''q'' \<longrightarrow> version x = ''latest''))"
    using last by (intro exI[of _ "''latest''"] exI[of _ solo_latest]) (simp add: solo_latest_def)
  then have "\<exists>t. map_of (tags (snd (hd solo_registry))) t = Some ''sha256:aa''"
    using hashes_have_tags[OF built entry key] by blast
  then show ?thesis using built entry key last by blast
qed

text \<open>
  The claim as stated fails for two modules of one name and version with different
  contents: the later module takes over the tag, while the hash of the earlier one stays
  in \<open>hashes\<close>.
\<close>

theorem hashes_have_tags_counterexample:
  "build_registry [foo_a, foo_b] [''r''] False empty_world = (Inr foo_registry, empty_world) \<and>
   ''sha256:aa'' \<in> fst ` set (hashes (snd (hd foo_registry))) \<and>
   ''sha256:aa'' \<notin> snd ` set (tags (snd (hd foo_registry)))"
proof -
  have "build_registry [foo_a, foo_b] [''r''] False empty_world = (Inr foo_registry, empty_world)"
    by code_simp
  then show ?thesis by (simp add: foo_registry_def)
qed

subsection \<open>Building without the write flag\<close>

lemma fold_modules_dry:
  "fold_modules root False ms reg w = (res, w') \<Longrightarrow>
     w' = w \<and> (\<forall>e. res = Inl e \<longrightarrow> e = ValueError \<and> (\<exists>m \<in> set ms. relative_to (path m) root = None))"
proof (induction ms arbitrary: reg)
  case Nil
  then show ?case by auto
next
  case (Cons m ms)
  obtain reg1 cur where sd: "setdefault reg (name m) empty_entry = (reg1, cur)"
    by (cases "setdefault reg (name m) empty_entry")
  show ?case
  proof (cases "relative_to (path m) root")
    case None
    then show ?thesis using Cons.prems sd by auto
  next
    case (Some rel)
    then obtain reg2 where "fold_modules root False ms reg2 w = (res, w')"
      using Cons.prems sd by auto
    from Cons.IH[OF this] show ?thesis by auto
  qed
qed

lemma fold_modules_dry_total:
  "\<forall>m \<in> set ms. relative_to (path m) root \<noteq> None \<Longrightarrow>
     \<exists>reg'. fold_modules root False ms reg w = (Inr reg', w)"
proof (induction ms arbitrary: reg)
  case Nil
  then show ?case by simp
next
  case (Cons m ms)
  obtain reg1 cur where sd: "setdefault reg (name m) empty_entry = (reg1, cur)"
    by (cases "setdefault reg (name m) empty_entry")
  obtain rel where rel: "relative_to (path m) root = Some rel" using Cons.prems by auto
  have "\<forall>m \<in> set ms. relative_to (path m) root \<noteq> None" using Cons.prems by simp
  from Cons.IH[OF this] show ?case using sd rel by simp
qed

lemma recorded_path_dry:
  "relative_to (path m) root \<noteq> None \<Longrightarrow>
     recorded_path root False m = as_posix (drop (length root) (path m))"
  by (auto simp: recorded_path_def final_path_def relative_to_def split: if_splits)

lemma map_option_find_cong:
  "(\<And>x. x \<in> set xs \<Longrightarrow> f x = g x) \<Longrightarrow> map_option f (find P xs) = map_option g (find P xs)"
  by (induction xs) auto


text \<open>
  Claim C8, as amended.  Without the write flag \<open>build_registry\<close> leaves the world
  as it is, the list of pending faults included, so that it has made no call into the
  operating system and none to \<open>materialize_module\<close>.  It fails only with the
  \<open>ValueError\<close> of \<open>relative_to\<close>, for a module outside \<open>root\<close>.  In the
  registry it returns, the record under a name and a hash is the one of the last module
  of the list with that name and hash: its version and its own path, taken relative to
  \<open>root\<close> and joined with forward slashes.
\<close>

theorem dry_run_frame:
  assumes "build_registry modules root False w = (res, w')"
  shows "w' = w \<and>
         (case res of
            Inl e \<Rightarrow> e = ValueError \<and> (\<exists>m \<in> set modules. relative_to (path m) root = None)
          | Inr reg \<Rightarrow>
              (\<forall>m \<in> set modules. take (length root) (path m) = root) \<and>
              (\<forall>k h. lookup_hash reg k h =
                 map_option
                   (\<lambda>m. \<lparr>loc_tag = version m,
                         loc_path = as_posix (drop (length root) (path m))\<rparr>)
                   (find (\<lambda>m. name m = k \<and> sha256 m = h) (rev modules))))"
proof -
  obtain r0 w0 where f0: "fold_modules root False modules [] w = (r0, w0)"
    by (cases "fold_modules root False modules [] w")
  have frame: "w0 = w" and err: "\<forall>e. r0 = Inl e \<longrightarrow> e = ValueError \<and> (\<exists>m \<in> set modules. relative_to (path m) root = None)"
    using fold_modules_dry[OF f0] by simp_all
  show ?thesis
  proof (cases r0)
    case (Inl e)
    then have "res = Inl e" "w' = w0" using assms f0 by (simp_all add: build_registry_def)
    then show ?thesis using frame err Inl by simp
  next
    case (Inr reg0)
    then have res: "res = set_latest reg0" and w': "w' = w0"
      using assms f0 by (simp_all add: build_registry_def)
    obtain reg where reg: "set_latest reg0 = Inr reg" using set_latest_total by blast
    have b: "build_registry modules root False w = (Inr reg, w')" using assms res reg by simp
    have under: "\<forall>m \<in> set modules. relative_to (path m) root \<noteq> None"
      using build_registry_Inr[OF b] by (simp add: final_path_def)
    then have under': "\<forall>m \<in> set modules. take (length root) (path m) = root"
      by (auto simp: relative_to_def split: if_splits)
    have "lookup_hash reg k h =
            map_option (\<lambda>m. \<lparr>loc_tag = version m, loc_path = as_posix (drop (length root) (path m))\<rparr>)
              (find (\<lambda>m. name m = k \<and> sha256 m = h) (rev modules))" for k h
      unfolding built_lookup_hash[OF b]
      by (rule map_option_find_cong) (use under recorded_path_dry in simp)
    then show ?thesis using frame w' res reg under' by simp
  qed
qed

theorem dry_run_frame_witness:
  "build_registry [bar_v1, bar_v10] [''r''] False empty_world = (Inr bar_registry, empty_world) \<and>
   lookup_hash bar_registry ''bar'' ''sha256:aa''
     = Some \<lparr>loc_tag = ''v1'', loc_path = ''a.js''\<rparr> \<and>
   lookup_hash bar_registry ''bar'' ''sha256:bb''
     = Some \<lparr>loc_tag = ''v10'', loc_path = ''b.js''\<rparr>"
proof -
  have built: "build_registry [bar_v1, bar_v10] [''r''] False empty_world
                 = (Inr bar_registry, empty_world)"
    by code_simp
  from dry_run_frame[OF built]
  have "\<forall>k h. lookup_hash bar_registry k h =
          map_option
            (\<lambda>m. \<lparr>loc_tag = version m, loc_path = as_posix (drop (length [''r'']) (path m))\<rparr>)
            (find (\<lambda>m. name m = k \<and> sha256 m = h) (rev [bar_v1, bar_v10]))"
    by simp
  then show ?thesis
    using built by (simp add: bar_v1_def bar_v10_def as_posix_def)
qed

text \<open>
  The claim as stated fails when two modules of one name have the same content: the
  record under their hash holds the path of the later one, and the path of the earlier
  one is not recorded.
\<close>

theorem dry_run_frame_counterexample:
  "build_registry [baz_v1, baz_v2] [''r''] False empty_world = (Inr baz_registry, empty_world) \<and>
   relative_to (path baz_v1) [''r''] = Some [''a.js''] \<and>
   lookup_hash baz_registry (name baz_v1) (sha256 baz_v1)
     = Some \<lparr>loc_tag = ''v2'', loc_path = ''b.js''\<rparr>"
proof -
  have "build_registry [baz_v1, baz_v2] [''r''] False empty_world = (Inr baz_registry, empty_world)"
    by code_simp
  then show ?thesis
    by (simp add: baz_registry_def baz_v1_def relative_to_def lookup_hash_def)
qed

subsection \<open>Two versions of the same content\<close>

lemma find_append_skip:
  "\<forall>x \<in> set xs. \<not> P x \<Longrightarrow> find P (xs @ ys) = find P ys"
  by (induction xs) auto

lemma entries_ok_record_module:
  assumes "distinct (map fst reg)" "\<forall>(k, e) \<in> set reg. entry_ok e"
  shows "\<forall>(k, e) \<in> set (record_module p m reg). entry_ok e"
proof (clarify)
  fix k e assume mem: "(k, e) \<in> set (record_module p m reg)"
  have d: "distinct (map fst (record_module p m reg))" using assms(1) by (rule distinct_record_module)
  then have look: "map_of (record_module p m reg) k = Some e" using mem by simp
  show "entry_ok e"
  proof (cases "k = name m")
    case True
    show ?thesis
    proof (cases "map_of reg k")
      case None
      then show ?thesis using look True by (auto simp: map_of_record_module entry_ok_def)
    next
      case (Some e0)
      then have "(k, e0) \<in> set reg" by (rule map_of_SomeD)
      then have "entry_ok e0" using assms(2) by auto
      then show ?thesis using look True Some
        by (auto simp: map_of_record_module entry_ok_def intro!: distinct_update)
    qed
  next
    case False
    then have "map_of reg k = Some e" using look by (simp add: map_of_record_module)
    then have "(k, e) \<in> set reg" by (rule map_of_SomeD)
    then show ?thesis using assms(2) by auto
  qed
qed

lemma entries_ok_folded:
  "\<forall>(k, e) \<in> set (folded root write ms []). entry_ok e"
proof (induction ms rule: rev_induct)
  case Nil
  then show ?case by (simp add: folded_def)
next
  case (snoc m ms)
  have "distinct (map fst (folded root write ms []))" by (simp add: distinct_folded)
  then show ?case unfolding folded_snoc using snoc by (rule entries_ok_record_module)
qed

lemma built_hashes_distinct:
  assumes "build_registry modules root write w = (Inr reg, w')" "(k, e) \<in> set reg"
  shows "distinct (map fst (hashes e))"
proof -
  have sl: "set_latest (folded root write modules []) = Inr reg"
    using build_registry_Inr[OF assms(1)] by simp
  from set_latest_entries[OF sl assms(2)] obtain e0 where
    "(k, e0) \<in> set (folded root write modules [])" "hashes e = hashes e0" by blast
  then show ?thesis using entries_ok_folded[of root "write" modules] by (auto simp: entry_ok_def)
qed

lemma distinct_count_one:
  "distinct (map fst al) \<Longrightarrow> map_of al k = Some v \<Longrightarrow> length (filter (\<lambda>p. fst p = k) al) = 1"
proof (induction al)
  case Nil
  then show ?case by simp
next
  case (Cons a al)
  show ?case
  proof (cases "fst a = k")
    case True
    then have "k \<notin> fst ` set al" using Cons.prems(1) by simp
    then have "\<forall>p \<in> set al. fst p \<noteq> k" by (metis imageI)
    then have "filter (\<lambda>p. fst p = k) al = []" by (simp add: filter_empty_conv)
    then show ?thesis using True by simp
  next
    case False
    then show ?thesis using Cons by auto
  qed
qed

text \<open>
  Claim C9, as amended.  Let two modules of the list have the same name and the same
  content hash (as modules with the same bytes have) and declare different versions,
  neither of them \<open>latest\<close>.  Suppose that no module after the earlier one declares
  its version under that name again, and that no module after the later one has that
  name together with the later one's version or with the hash.  Then the entry of that
  name maps both versions to the hash, and its \<open>hashes\<close> hold exactly one record
  under the hash: the version of the later module and the path recorded for it.
\<close>

theorem aliased_versions:
  assumes build: "build_registry modules root write w = (Inr reg, w')"
    and split: "modules = xs @ m1 # ys @ m2 # zs"
    and same_name: "name m1 = name m2"
    and same_hash: "sha256 m1 = sha256 m2"
    and versions: "version m1 \<noteq> version m2"
    and not_latest: "version m1 \<noteq> ''latest''" "version m2 \<noteq> ''latest''"
    and earlier_kept: "\<forall>m \<in> set (ys @ zs). name m = name m1 \<longrightarrow> version m \<noteq> version m1"
    and later_kept: "\<forall>m \<in> set zs. name m = name m1 \<longrightarrow>
                       version m \<noteq> version m2 \<and> sha256 m \<noteq> sha256 m1"
  shows "\<exists>e rel. map_of reg (name m1) = Some e \<and>
           map_of (tags e) (version m1) = Some (sha256 m1) \<and>
           map_of (tags e) (version m2) = Some (sha256 m1) \<and>
           length (filter (\<lambda>p. fst p = sha256 m1) (hashes e)) = 1 \<and>
           relative_to (final_path root write m2) root = Some rel \<and>
           map_of (hashes e) (sha256 m1)
             = Some \<lparr>loc_tag = version m2, loc_path = as_posix rel\<rparr>"
proof -
  let ?k = "name m1" and ?h = "sha256 m1"
  have revm: "rev modules = rev zs @ m2 # rev ys @ m1 # rev xs" using split by simp
  have f1: "find (\<lambda>m. name m = ?k \<and> version m = version m1) (rev modules) = Some m1"
  proof -
    have "\<forall>x \<in> set (rev zs @ m2 # rev ys). \<not> (name x = ?k \<and> version x = version m1)"
      using earlier_kept versions by auto
    then have "find (\<lambda>m. name m = ?k \<and> version m = version m1) ((rev zs @ m2 # rev ys) @ m1 # rev xs)
                 = find (\<lambda>m. name m = ?k \<and> version m = version m1) (m1 # rev xs)"
      by (rule find_append_skip)
    then show ?thesis using revm by simp
  qed
  have f2: "find (\<lambda>m. name m = ?k \<and> version m = version m2) (rev modules) = Some m2"
  proof -
    have "\<forall>x \<in> set (rev zs). \<not> (name x = ?k \<and> version x = version m2)"
      using later_kept by auto
    then have "find (\<lambda>m. name m = ?k \<and> version m = version m2) (rev zs @ m2 # rev ys @ m1 # rev xs)
                 = find (\<lambda>m. name m = ?k \<and> version m = version m2) (m2 # rev ys @ m1 # rev xs)"
      by (rule find_append_skip)
    then show ?thesis using revm same_name by simp
  qed
  have f3: "find (\<lambda>m. name m = ?k \<and> sha256 m = ?h) (rev modules) = Some m2"
  proof -
    have "\<forall>x \<in> set (rev zs). \<not> (name x = ?k \<and> sha256 x = ?h)"
      using later_kept by auto
    then have "find (\<lambda>m. name m = ?k \<and> sha256 m = ?h) (rev zs @ m2 # rev ys @ m1 # rev xs)
                 = find (\<lambda>m. name m = ?k \<and> sha256 m = ?h) (m2 # rev ys @ m1 # rev xs)"
      by (rule find_append_skip)
    then show ?thesis using revm same_name same_hash by simp
  qed
  have t1: "lookup_tag reg ?k (version m1) = Some ?h"
    unfolding built_lookup_tag[OF build not_latest(1)] using f1 by simp
  have t2: "lookup_tag reg ?k (version m2) = Some ?h"
    unfolding built_lookup_tag[OF build not_latest(2)] using f2 same_hash by simp
  have h: "lookup_hash reg ?k ?h
             = Some \<lparr>loc_tag = version m2, loc_path = recorded_path root write m2\<rparr>"
    unfolding built_lookup_hash[OF build] using f3 by simp
  obtain e where e: "map_of reg ?k = Some e"
    using t1 by (cases "map_of reg ?k") (simp_all add: lookup_tag_def)
  have mem: "(?k, e) \<in> set reg" using e by (rule map_of_SomeD)
  have "m2 \<in> set modules" using split by simp
  then obtain rel where rel: "relative_to (final_path root write m2) root = Some rel"
    using build_registry_Inr[OF build] by auto
  then have rp: "recorded_path root write m2 = as_posix rel" by (simp add: recorded_path_def)
  have he: "map_of (hashes e) ?h = Some \<lparr>loc_tag = version m2, loc_path = as_posix rel\<rparr>"
    using h e rp by (simp add: lookup_hash_def)
  have one: "length (filter (\<lambda>p. fst p = ?h) (hashes e)) = 1"
    using built_hashes_distinct[OF build mem] he by (rule distinct_count_one)
  show ?thesis using e t1 t2 one rel he by (simp add: lookup_tag_def)
qed

theorem aliased_versions_witness:
  "build_registry [baz_v1, baz_v2] [''r''] False empty_world = (Inr baz_registry, empty_world) \<and>
   [baz_v1, baz_v2] = [] @ baz_v1 # [] @ baz_v2 # [] \<and>
   name baz_v1 = name baz_v2 \<and> sha256 baz_v1 = sha256 baz_v2 \<and>
   version baz_v1 \<noteq> version baz_v2 \<and>
   version baz_v1 \<noteq> ''latest'' \<and> version baz_v2 \<noteq> ''latest'' \<and>
   (\<exists>e rel. map_of baz_registry (name baz_v1) = Some e \<and>
      map_of (tags e) (version baz_v1) = Some (sha256 baz_v1) \<and>
      map_of (tags e) (version baz_v2) = Some (sha256 baz_v1) \<and>
      length (filter (\<lambda>p. fst p = sha256 baz_v1) (hashes e)) = 1 \<and>
      relative_to (final_path [''r''] False baz_v2) [''r''] = Some rel \<and>
      map_of (hashes e) (sha256 baz_v1)
        = Some \<lparr>loc_tag = version baz_v2, loc_path = as_posix rel\<rparr>)"
proof -
  have built: "build_registry [baz_v1, baz_v2] [''r''] False empty_world
                 = (Inr baz_registry, empty_world)"
    by code_simp
  have split: "[baz_v1, baz_v2] = [] @ baz_v1 # [] @ baz_v2 # []" by simp
  have same_name: "name baz_v1 = name baz_v2" by (simp add: baz_v1_def baz_v2_def)
  have same_hash: "sha256 baz_v1 = sha256 baz_v2" by (simp add: baz_v1_def baz_v2_def)
  have versions: "version baz_v1 \<noteq> version baz_v2" by (simp add: baz_v1_def baz_v2_def)
  have n1: "version baz_v1 \<noteq> ''latest''" by (simp add: baz_v1_def)
  have n2: "version baz_v2 \<noteq> ''latest''" by (simp add: baz_v2_def)
  have k1: "\<forall>m \<in> set ([] @ []). name m = name baz_v1 \<longrightarrow> version m \<noteq> version baz_v1"
    by simp
  have k2: "\<forall>m \<in> set []. name m = name baz_v1 \<longrightarrow>
              version m \<noteq> version baz_v2 \<and> sha256 m \<noteq> sha256 baz_v1"
    by simp
  show ?thesis
    using built split same_name same_hash versions n1 n2
      aliased_versions[OF built split same_name same_hash versions n1 n2 k1 k2]
    by blast
qed

text \<open>
  The claim as stated fails when a third module of that name declares one of the two
  versions again with other content: the tag of that version then points to the third
  module's hash.
\<close>

theorem aliased_versions_counterexample:
  "build_registry [baz_v1, baz_v2, baz_other] [''r''] False empty_world
     = (Inr baz_overridden, empty_world) \<and>
   name baz_v1 = name baz_v2 \<and> source baz_v1 = source baz_v2 \<and>
   sha256 baz_v1 = sha256 baz_v2 \<and> version baz_v1 \<noteq> version baz_v2 \<and>
   lookup_tag baz_overridden (name baz_v1) (version baz_v1) = Some ''sha256:dd'' \<and>
   sha256 baz_v1 \<noteq> ''sha256:dd''"
proof -
  have "build_registry [baz_v1, baz_v2, baz_other] [''r''] False empty_world
          = (Inr baz_overridden, empty_world)"
    by code_simp
  then show ?thesis
    by (simp add: baz_overridden_def baz_v1_def baz_v2_def lookup_tag_def)
qed

subsection \<open>Loading a module\<close>

lemma read_bytes_Inr:
  "read_bytes p w = (Inr b, w') \<Longrightarrow>
     \<not> has_nul p \<and> lookup_node w (fs_path p) = Some (File b) \<and> nodes w' = nodes w"
  by (auto simp: read_bytes_def sys_read_def next_fault_def lookup_node_def
           split: list.splits fault.splits option.splits node.splits if_splits)

lemma load_module_Inr:
  assumes "load_module E root p w = (Inr m, w')"
  shows "\<exists>src md name_value version_value rel.
           read_bytes p w = (Inr src, w') \<and>
           extract_metadata E p = Inr md \<and>
           json_get md ''name'' (JStr []) = Inr name_value \<and>
           json_get md ''version'' (JStr []) = Inr version_value \<and>
           relative_to p root = Some rel \<and>
           name m = lower (strip (py_str (py_repr E) name_value)) \<and>
           name m \<noteq> [] \<and>
           version m = (if strip (py_str (py_repr E) version_value) \<noteq> []
                        then strip (py_str (py_repr E) version_value) else DEFAULT_VERSION) \<and>
           path m = p \<and> source m = src \<and> metadata m = md \<and>
           sha256 m = ''sha256:'' @ hexdigest (sha256_digest E src) \<and>
           versioned m = is_versioned_path rel (name m) (version m)"
proof -
  obtain r w1 where rb: "read_bytes p w = (r, w1)" by (cases "read_bytes p w")
  from assms rb obtain src where r: "r = Inr src"
    by (cases r) (auto simp: load_module_def split: error.splits)
  from assms rb r obtain md where md: "extract_metadata E p = Inr md"
    by (cases "extract_metadata E p") (auto simp: load_module_def)
  from assms rb r md obtain nv where nv: "json_get md ''name'' (JStr []) = Inr nv"
    by (cases "json_get md ''name'' (JStr [])") (auto simp: load_module_def)
  have ne: "lower (strip (py_str (py_repr E) nv)) \<noteq> []"
    using assms rb r md nv by (auto simp: load_module_def Let_def split: if_splits)
  from assms rb r md nv ne obtain vv where vv: "json_get md ''version'' (JStr []) = Inr vv"
    by (cases "json_get md ''version'' (JStr [])") (auto simp: load_module_def Let_def)
  from assms rb r md nv ne vv obtain rel where rel: "relative_to p root = Some rel"
    by (cases "relative_to p root") (auto simp: load_module_def Let_def)
  show ?thesis
    using assms rb r md nv ne vv rel by (auto simp: load_module_def Let_def)
qed

lemma lower_add32: "is_upper c \<Longrightarrow> (of_char (lower_char c) :: nat) = of_char c + 32"
  by (cases c) (auto simp: is_upper_def lower_char_def)

lemma not_upper_bit5: "\<not> is_upper (Char b0 b1 b2 b3 b4 True b6 b7)"
  by (auto simp: is_upper_def)

lemma lower_char_idem: "lower_char (lower_char c) = lower_char c"
proof (cases "is_upper c")
  case True
  obtain b0 b1 b2 b3 b4 b5 b6 b7 where c: "c = Char b0 b1 b2 b3 b4 b5 b6 b7" by (cases c)
  have "lower_char c = Char b0 b1 b2 b3 b4 True b6 b7"
    using True by (simp add: lower_char_def c)
  then show ?thesis using not_upper_bit5 by (simp add: lower_char_def)
next
  case False
  then show ?thesis by (simp add: lower_char_def)
qed

lemma lower_idem: "lower (lower s) = lower s"
  by (simp add: lower_def lower_char_idem)

lemma lower_append: "lower (a @ b) = lower a @ lower b"
  by (simp add: lower_def)

lemma lower_js: "lower ''.js'' = ''.js''"
  by (simp add: lower_def lower_char_def is_upper_def)


text \<open>
  Claim C4, as amended.  A module that \<open>load_module\<close> returns is marked as versioned
  if and only if its path relative to \<open>root\<close> has at least three segments, the last
  one equal to \<open>name.js\<close> and the one before it equal to the declared version, both
  without regard to case.  A path of fewer than three segments is never marked; the
  segments before the last two are not looked at.
\<close>

theorem canonical_layout:
  assumes "load_module E root p w = (Inr m, w')"
  shows "\<exists>rel. relative_to p root = Some rel \<and>
           (versioned m \<longleftrightarrow>
              3 \<le> length rel \<and>
              lower (last rel) = lower (name m @ ''.js'') \<and>
              lower (last (butlast rel)) = lower (version m))"
proof -
  from load_module_Inr[OF assms] obtain rel nv where
    rel: "relative_to p root = Some rel" and
    nm: "name m = lower (strip (py_str (py_repr E) nv))" and
    v: "versioned m = is_versioned_path rel (name m) (version m)"
    by blast
  have "lower (name m) = name m" by (subst (1 2) nm) (rule lower_idem)
  then have "lower (name m @ ''.js'') = name m @ ''.js''"
    by (simp add: lower_append lower_js)
  then have "versioned m \<longleftrightarrow>
              3 \<le> length rel \<and>
              lower (last rel) = lower (name m @ ''.js'') \<and>
              lower (last (butlast rel)) = lower (version m)"
    unfolding v by (auto simp: is_versioned_path_def Let_def)
  then show ?thesis using rel by blast
qed

theorem canonical_layout_witness:
  "load_module sample_env [''r''] [''r'', ''foo.js''] nested_world = (Inr flat_foo, nested_world) \<and>
   relative_to [''r'', ''foo.js''] [''r''] = Some [''foo.js''] \<and>
   \<not> versioned flat_foo \<and>
   (\<exists>rel. relative_to [''r'', ''foo.js''] [''r''] = Some rel \<and>
      (versioned flat_foo \<longleftrightarrow>
         3 \<le> length rel \<and>
         lower (last rel) = lower (name flat_foo @ ''.js'') \<and>
         lower (last (butlast rel)) = lower (version flat_foo)))"
proof -
  have loaded: "load_module sample_env [''r''] [''r'', ''foo.js''] nested_world
                  = (Inr flat_foo, nested_world)"
    by code_simp
  have rel: "relative_to [''r'', ''foo.js''] [''r''] = Some [''foo.js'']"
    by (simp add: relative_to_def)
  have "\<not> versioned flat_foo" by (simp add: flat_foo_def)
  then show ?thesis using loaded rel canonical_layout[OF loaded] by blast
qed

text \<open>
  The claim as stated fails on a path of four segments that ends with the version
  directory and the file name: the module is marked as versioned.
\<close>

theorem canonical_layout_counterexample:
  "load_module sample_env [''r''] nested_path nested_world = (Inr nested_foo, nested_world) \<and>
   relative_to nested_path [''r''] = Some [''old'', ''foo'', ''v1'', ''foo.js''] \<and>
   length [''old'', ''foo'', ''v1'', ''foo.js''] = 4 \<and>
   versioned nested_foo"
proof -
  have "load_module sample_env [''r''] nested_path nested_world = (Inr nested_foo, nested_world)"
    by code_simp
  then show ?thesis by (simp add: relative_to_def nested_path_def nested_foo_def)
qed

subsection \<open>The content hash\<close>

lemma hex_digit_lower: "hex_digit n \<in> set ''0123456789abcdef''"
  unfolding hex_digit_def by (rule nth_mem) simp

lemma pair_subset: "x \<in> S \<Longrightarrow> y \<in> S \<Longrightarrow> set [x, y] \<subseteq> S"
  by simp

lemma hex_byte_lower: "set (hex_byte b) \<subseteq> set ''0123456789abcdef''"
  unfolding hex_byte_def using hex_digit_lower hex_digit_lower by (rule pair_subset)

lemma concat_subset: "(\<And>x. x \<in> set xs \<Longrightarrow> set (f x) \<subseteq> S) \<Longrightarrow> set (concat (map f xs)) \<subseteq> S"
  by (induction xs) auto

lemma hexdigest_lower: "set (hexdigest d) \<subseteq> set ''0123456789abcdef''"
  unfolding hexdigest_def by (rule concat_subset) (rule hex_byte_lower)

lemma hexdigest_length: "length (hexdigest d) = 2 * length d"
  by (induction d) (simp_all add: hexdigest_def hex_byte_def)


lemma hex_value_digits:
  "map (\<lambda>n. hex_value (hex_digit n)) [0 ..< 16] = map Some [0 ..< 16]"
  by code_simp

lemma hex_value_hex_digit: "n < 16 \<Longrightarrow> hex_value (hex_digit n) = Some n"
proof -
  assume n: "n < 16"
  have "map (\<lambda>n. hex_value (hex_digit n)) [0 ..< 16] ! n = map Some [0 ..< 16] ! n"
    by (simp only: hex_value_digits)
  then show ?thesis using n by simp
qed

lemma hex_value_inj: "hex_value c = Some n \<Longrightarrow> hex_value c' = Some n \<Longrightarrow> c = c'"
  by (simp add: hex_value_def split: if_splits)

lemma lower_hex_of_hexdigest: "lower_hex_of d (hexdigest d)"
proof (induction d)
  case Nil
  then show ?case by (simp add: hexdigest_def)
next
  case (Cons b bs)
  have "(of_char b :: nat) < 256" by simp
  then have hi: "(of_char b :: nat) div 16 < 16" by (simp add: div_less_iff_less_mult)
  have lo: "(of_char b :: nat) mod 16 < 16" by simp
  have "hexdigest (b # bs)
          = hex_digit ((of_char b :: nat) div 16) # hex_digit ((of_char b :: nat) mod 16) # hexdigest bs"
    by (simp add: hexdigest_def hex_byte_def)
  then show ?case
    using Cons hex_value_hex_digit[OF hi] hex_value_hex_digit[OF lo] by simp
qed

lemma lower_hex_of_Cons:
  "lower_hex_of (b # bs) h \<Longrightarrow>
     \<exists>c1 c2 rest. h = c1 # c2 # rest \<and>
        hex_value c1 = Some ((of_char b :: nat) div 16) \<and>
        hex_value c2 = Some ((of_char b :: nat) mod 16) \<and> lower_hex_of bs rest"
  by (cases h; cases "tl h") auto

lemma lower_hex_of_unique: "lower_hex_of d h \<Longrightarrow> lower_hex_of d h' \<Longrightarrow> h = h'"
proof (induction d arbitrary: h h')
  case Nil
  then show ?case by simp
next
  case (Cons b bs)
  from lower_hex_of_Cons[OF Cons.prems(1)] obtain c1 c2 rest where
    h: "h = c1 # c2 # rest" and
    c: "hex_value c1 = Some ((of_char b :: nat) div 16)"
       "hex_value c2 = Some ((of_char b :: nat) mod 16)" and
    r: "lower_hex_of bs rest"
    by blast
  from lower_hex_of_Cons[OF Cons.prems(2)] obtain d1 d2 rest' where
    h': "h' = d1 # d2 # rest'" and
    d: "hex_value d1 = Some ((of_char b :: nat) div 16)"
       "hex_value d2 = Some ((of_char b :: nat) mod 16)" and
    r': "lower_hex_of bs rest'"
    by blast
  have "c1 = d1" using c(1) d(1) by (rule hex_value_inj)
  moreover have "c2 = d2" using c(2) d(2) by (rule hex_value_inj)
  moreover have "rest = rest'" using r r' by (rule Cons.IH)
  ultimately show ?case using h h' by simp
qed

text \<open>
  Claim C5.  The \<open>sha256\<close> field of a loaded module is the text \<open>sha256:\<close>
  followed by the lowercase hexadecimal text of the SHA-256 digest of the bytes of its
  file, and these bytes are the content of the file at the module's path.  Two loaded
  modules with the same bytes have the same field, whatever their roots, paths, names
  and versions.
\<close>

theorem content_hash:
  assumes "load_module E root p w = (Inr m, w1)"
    and "load_module E root' p' w' = (Inr m', w1')"
  shows "lookup_node w (fs_path p) = Some (File (source m)) \<and>
         (\<exists>h. sha256 m = ''sha256:'' @ h \<and> lower_hex_of (sha256_digest E (source m)) h) \<and>
         (source m = source m' \<longrightarrow> sha256 m = sha256 m')"
proof -
  from load_module_Inr[OF assms(1)] obtain src where
    "read_bytes p w = (Inr src, w1)" "source m = src"
    "sha256 m = ''sha256:'' @ hexdigest (sha256_digest E src)" by blast
  moreover from load_module_Inr[OF assms(2)] have
    "sha256 m' = ''sha256:'' @ hexdigest (sha256_digest E (source m'))" by auto
  ultimately show ?thesis
    using read_bytes_Inr[of p w src w1] lower_hex_of_hexdigest by auto
qed

theorem content_hash_witness:
  "load_module sample_env [''r''] [''r'', ''foo.js''] nested_world = (Inr flat_foo, nested_world) \<and>
   load_module sample_env [''r''] nested_path nested_world = (Inr nested_foo, nested_world) \<and>
   path flat_foo \<noteq> path nested_foo \<and>
   source flat_foo = source nested_foo \<and>
   sha256 flat_foo = sha256 nested_foo \<and>
   (\<exists>h. sha256 flat_foo = ''sha256:'' @ h \<and>
        lower_hex_of (sha256_digest sample_env (source flat_foo)) h)"
proof -
  have one: "load_module sample_env [''r''] [''r'', ''foo.js''] nested_world
               = (Inr flat_foo, nested_world)"
    by code_simp
  have two: "load_module sample_env [''r''] nested_path nested_world
               = (Inr nested_foo, nested_world)"
    by code_simp
  have paths: "path flat_foo \<noteq> path nested_foo"
    by (simp add: flat_foo_def nested_foo_def nested_path_def)
  have bytes: "source flat_foo = source nested_foo"
    by (simp add: flat_foo_def nested_foo_def)
  show ?thesis using one two paths bytes content_hash[OF one two] by blast
qed

subsection \<open>Writing the manifest\<close>

lemma lookup_put_node:
  "q \<noteq> [] \<Longrightarrow> lookup_node (put_node q n w) q' = (if q' = q then Some n else lookup_node w q')"
  by (auto simp: lookup_node_def put_node_def update_conv')


lemma next_fault_nodes: "next_fault w = (f, w1) \<Longrightarrow> nodes w1 = nodes w"
  by (auto simp: next_fault_def split: list.splits)

lemma lookup_nodes_cong: "nodes w1 = nodes w \<Longrightarrow> lookup_node w1 q = lookup_node w q"
  by (simp add: lookup_node_def)








lemma fs_path_snoc:
  "seg \<noteq> ''/'' \<Longrightarrow> fs_path (root @ [seg]) = fs_path root @ [seg]"
  by (cases root) (auto simp: fs_path_def double_slash_def)





subsection \<open>The usage report\<close>

lemma find_snoc:
  "find P (xs @ [x]) = (case find P xs of None \<Rightarrow> (if P x then Some x else None) | Some y \<Rightarrow> Some y)"
  by (induction xs) auto

lemma index_usage_lookup:
  "index_usage E usage idx0 = Inr idx \<Longrightarrow>
     map_of idx key =
       (case find (\<lambda>r. usage_key E r = Some key) (rev usage) of
          None \<Rightarrow> map_of idx0 key
        | Some r \<Rightarrow> Some r)"
proof (induction usage arbitrary: idx0)
  case Nil
  then show ?case by simp
next
  case (Cons r rest)
  from Cons.prems obtain s where s: "json_get r ''strategy'' (JStr []) = Inr s"
    by (cases "json_get r ''strategy'' (JStr [])") auto
  from Cons.prems s obtain hv where hv: "json_get r ''hash'' (JStr []) = Inr hv"
    by (cases "json_get r ''hash'' (JStr [])") auto
  let ?nm = "lower (strip (py_str (py_repr E) s))" and ?hash = "strip (py_str (py_repr E) hv)"
  have fr: "find (\<lambda>r. usage_key E r = Some key) (rev (r # rest)) =
        (case find (\<lambda>r. usage_key E r = Some key) (rev rest) of
           None \<Rightarrow> (if usage_key E r = Some key then Some r else None)
         | Some x \<Rightarrow> Some x)"
    by (simp add: find_snoc)
  show ?case
  proof (cases "?nm = [] \<or> ?hash = []")
    case True
    then have "index_usage E rest idx0 = Inr idx" using Cons.prems s hv by (auto simp: Let_def)
    moreover have "usage_key E r = None" using True s hv by (auto simp: usage_key_def Let_def)
    ultimately show ?thesis using Cons.IH[of idx0] fr by (simp split: option.splits)
  next
    case False
    then have step: "index_usage E rest (AList.update (?nm, ?hash) r idx0) = Inr idx"
      using Cons.prems s hv by (auto simp: Let_def)
    have uk: "usage_key E r = Some (?nm, ?hash)"
      using False s hv by (auto simp: usage_key_def Let_def)
    show ?thesis using Cons.IH[OF step] fr uk
      by (auto simp: update_conv' split: option.splits)
  qed
qed

lemma scan_hashes_set:
  "scan_hashes E idx nm hs acc = Inr out \<Longrightarrow>
     set out = set acc \<union> {(nm, reported_tag loc, h) |h loc. (h, loc) \<in> set hs \<and> unused_cond E idx nm h}"
proof (induction hs arbitrary: acc)
  case Nil
  then show ?case by simp
next
  case (Cons a hs)
  obtain h loc where a: "a = (h, loc)" by (cases a)
  show ?case
  proof (cases "map_of idx (lower nm, h)")
    case None
    then have "scan_hashes E idx nm hs (acc @ [(nm, reported_tag loc, h)]) = Inr out"
      using Cons.prems a by (simp add: reported_tag_def)
    from Cons.IH[OF this] show ?thesis using a None by (auto simp: unused_cond_def)
  next
    case (Some r)
    from Cons.prems a Some obtain c where c: "usage_count E r = Inr c"
      by (cases "usage_count E r") auto
    show ?thesis
    proof (cases "c = 0")
      case True
      then have "scan_hashes E idx nm hs (acc @ [(nm, reported_tag loc, h)]) = Inr out"
        using Cons.prems a Some c by (simp add: reported_tag_def)
      from Cons.IH[OF this] show ?thesis using a Some c True by (auto simp: unused_cond_def)
    next
      case False
      then have "scan_hashes E idx nm hs acc = Inr out"
        using Cons.prems a Some c by simp
      from Cons.IH[OF this] show ?thesis using a Some c False by (auto simp: unused_cond_def)
    qed
  qed
qed

lemma scan_registry_set:
  "scan_registry E idx reg acc = Inr out \<Longrightarrow>
     set out = set acc \<union>
       {(nm, reported_tag loc, h) |nm e h loc.
          (nm, e) \<in> set reg \<and> (h, loc) \<in> set (hashes e) \<and> unused_cond E idx nm h}"
proof (induction reg arbitrary: acc)
  case Nil
  then show ?case by simp
next
  case (Cons a reg)
  obtain nm e where a: "a = (nm, e)" by (cases a)
  from Cons.prems a obtain mid where mid: "scan_hashes E idx nm (hashes e) acc = Inr mid"
    and rest: "scan_registry E idx reg mid = Inr out"
    by (cases "scan_hashes E idx nm (hashes e) acc") auto
  show ?case
    unfolding Cons.IH[OF rest] scan_hashes_set[OF mid] using a by auto
qed

text \<open>
  Claim C3, as amended.  When \<open>report_usage\<close> completes, a hash of the registry is on
  its list of unused revisions, under its name and its tag, if and only if no usage
  record matches it by the lowercased name and the hash, or the count of the matching
  record is converted by \<open>int\<close> to \<open>0\<close> or is refused by it with \<open>TypeError\<close> or
  \<open>ValueError\<close>.  A matching record whose count converts to another number, positive
  or negative, keeps the hash off the list.  The report prints the sorted list.
\<close>

theorem unused_report:
  assumes run: "unused_revisions E usage registry = Inr unused"
    and entry: "(k, e) \<in> set registry"
    and pair: "(h, loc) \<in> set (hashes e)"
  shows "((k, reported_tag loc, h) \<in> set unused \<longleftrightarrow>
            (case matching_record E usage k h of
               None \<Rightarrow> True
             | Some r \<Rightarrow>
                 (\<exists>c. json_get r ''count'' (JInt 0) = Inr c \<and>
                      py_int (int_max_str_digits E) c \<in> {Inr 0, Inl TypeError, Inl ValueError}))) \<and>
         report_usage E usage registry =
           Inr (if unused = []
                then [[], ''usage report: no unused revisions detected (all tracked hashes have usage).'']
                else [[], ''usage report: revisions with zero running instances:''] @
                     map (\<lambda>(nm, tg, hash_value). ''  - '' @ nm @ '' '' @ tg @ '' ['' @ hash_value @ '']'')
                       (sort unused))"
proof -
  from run obtain idx where idx: "index_usage E usage [] = Inr idx"
    and scan: "scan_registry E idx registry [] = Inr unused"
    by (cases "index_usage E usage []") (auto simp: unused_revisions_def)
  have look: "map_of idx (lower k, h) = matching_record E usage k h"
    using index_usage_lookup[OF idx, of "(lower k, h)"]
    by (simp add: matching_record_def split: option.splits)
  have "(k, reported_tag loc, h) \<in> set unused \<longleftrightarrow> unused_cond E idx k h"
    unfolding scan_registry_set[OF scan] using entry pair by auto
  also have "\<dots> \<longleftrightarrow>
      (case matching_record E usage k h of
         None \<Rightarrow> True
       | Some r \<Rightarrow>
           (\<exists>c. json_get r ''count'' (JInt 0) = Inr c \<and>
                py_int (int_max_str_digits E) c \<in> {Inr 0, Inl TypeError, Inl ValueError}))"
    unfolding unused_cond_def look
    by (auto simp: usage_count_def split: option.splits sum.splits error.splits)
  finally have first: "(k, reported_tag loc, h) \<in> set unused \<longleftrightarrow>
      (case matching_record E usage k h of
         None \<Rightarrow> True
       | Some r \<Rightarrow>
           (\<exists>c. json_get r ''count'' (JInt 0) = Inr c \<and>
                py_int (int_max_str_digits E) c \<in> {Inr 0, Inl TypeError, Inl ValueError}))" .
  show ?thesis using first run by (simp add: report_usage_def)
qed

theorem unused_report_witness:
  "unused_revisions sample_env [live_usage, zero_usage] bar_registry
     = Inr [(''bar'', ''v10'', ''sha256:bb'')] \<and>
   (''bar'', snd (hd bar_registry)) \<in> set bar_registry \<and>
   (''sha256:bb'', \<lparr>loc_tag = ''v10'', loc_path = ''b.js''\<rparr>) \<in> set (hashes (snd (hd bar_registry))) \<and>
   matching_record sample_env [live_usage, zero_usage] ''bar'' ''sha256:bb'' = Some zero_usage \<and>
   json_get zero_usage ''count'' (JInt 0) = Inr (JStr ''0'') \<and>
   py_int (int_max_str_digits sample_env) (JStr ''0'') = Inr 0 \<and>
   (''bar'', reported_tag \<lparr>loc_tag = ''v10'', loc_path = ''b.js''\<rparr>, ''sha256:bb'')
     \<in> set [(''bar'', ''v10'', ''sha256:bb'')]"
proof -
  have run: "unused_revisions sample_env [live_usage, zero_usage] bar_registry
               = Inr [(''bar'', ''v10'', ''sha256:bb'')]"
    by code_simp
  have entry: "(''bar'', snd (hd bar_registry)) \<in> set bar_registry"
    by (simp add: bar_registry_def)
  have pair: "(''sha256:bb'', \<lparr>loc_tag = ''v10'', loc_path = ''b.js''\<rparr>)
                \<in> set (hashes (snd (hd bar_registry)))"
    by (simp add: bar_registry_def)
  have rec: "matching_record sample_env [live_usage, zero_usage] ''bar'' ''sha256:bb'' = Some zero_usage"
    by code_simp
  have cnt: "json_get zero_usage ''count'' (JInt 0) = Inr (JStr ''0'')"
    by code_simp
  have zero: "py_int (int_max_str_digits sample_env) (JStr ''0'') = Inr 0"
    by code_simp
  have "(''bar'', reported_tag \<lparr>loc_tag = ''v10'', loc_path = ''b.js''\<rparr>, ''sha256:bb'')
          \<in> set [(''bar'', ''v10'', ''sha256:bb'')]"
    using unused_report[OF run entry pair] rec cnt zero by simp
  then show ?thesis using run entry pair rec cnt zero by blast
qed

text \<open>
  The claim as stated fails for a count below zero: the record matches, its count is not
  positive, and the hash is not on the list.
\<close>

theorem unused_report_counterexample:
  "unused_revisions sample_env [neg_usage] bar_registry = Inr [(''bar'', ''v10'', ''sha256:bb'')] \<and>
   matching_record sample_env [neg_usage] ''bar'' ''sha256:aa'' = Some neg_usage \<and>
   json_get neg_usage ''count'' (JInt 0) = Inr (JInt (- 1)) \<and>
   py_int (int_max_str_digits sample_env) (JInt (- 1)) = Inr (- 1) \<and>
   (''bar'', ''v1'', ''sha256:aa'') \<notin> set [(''bar'', ''v10'', ''sha256:bb'')]"
proof -
  have "unused_revisions sample_env [neg_usage] bar_registry = Inr [(''bar'', ''v10'', ''sha256:bb'')]"
    by code_simp
  moreover have "matching_record sample_env [neg_usage] ''bar'' ''sha256:aa'' = Some neg_usage"
    by code_simp
  moreover have "json_get neg_usage ''count'' (JInt 0) = Inr (JInt (- 1))"
    by code_simp
  moreover have "py_int (int_max_str_digits sample_env) (JInt (- 1)) = Inr (- 1)"
    by code_simp
  ultimately show ?thesis by simp
qed

subsection \<open>The root directory\<close>

lemma prefixes_of_set: "set (prefixes_of t) = {take k t |k. 1 \<le> k \<and> k \<le> length t}"
  by (auto simp: prefixes_of_def)

lemma prefixes_of_nonempty: "[] \<notin> set (prefixes_of t)"
  by (auto simp: prefixes_of_set)


lemma prefixes_of_short: "q \<in> set (prefixes_of t) \<Longrightarrow> length q \<le> length t"
  by (auto simp: prefixes_of_set)

lemma fold_put_lookup:
  "[] \<notin> set ps \<Longrightarrow>
     lookup_node (fold (\<lambda>q. put_node q Dir) ps w) q
       = (if q \<in> set ps then Some Dir else lookup_node w q)"
proof (induction ps arbitrary: w)
  case Nil
  then show ?case by simp
next
  case (Cons a ps)
  then have "a \<noteq> []" by auto
  then show ?case using Cons by (auto simp: lookup_put_node)
qed

lemma make_dirs_lookup:
  "[] \<notin> set ps \<Longrightarrow>
     lookup_node (make_dirs ps w) q = (if q \<in> set ps then Some Dir else lookup_node w q)"
  unfolding make_dirs_def by (rule fold_put_lookup)











subsection \<open>A module without a name\<close>

lemma read_bytes_nodes: "read_bytes p w = (r, w') \<Longrightarrow> nodes w' = nodes w"
  by (auto simp: read_bytes_def sys_read_def next_fault_def
           split: if_splits list.splits fault.splits option.splits node.splits)

lemma load_module_nodes:
  assumes "load_module E root p w = (r, w')"
  shows "nodes w' = nodes w"
proof -
  obtain r1 w1 where rb: "read_bytes p w = (r1, w1)" by (cases "read_bytes p w")
  have "w' = w1"
    using assms rb
    by (auto simp: load_module_def Let_def
             split: sum.splits error.splits option.splits if_splits)
  then show ?thesis using read_bytes_nodes[OF rb] by simp
qed

lemma load_all_nodes: "load_all E root fs w = (r, w') \<Longrightarrow> nodes w' = nodes w"
proof (induction fs arbitrary: w r w')
  case Nil
  then show ?case by simp
next
  case (Cons f fs)
  show ?case
  proof (cases "last f = ''registry.json''")
    case True
    then show ?thesis using Cons by simp
  next
    case False
    obtain r1 w1 where lm: "load_module E root f w = (r1, w1)"
      by (cases "load_module E root f w")
    have n1: "nodes w1 = nodes w" using lm by (rule load_module_nodes)
    show ?thesis
    proof (cases r1)
      case (Inl e)
      then show ?thesis using Cons.prems False lm n1 by simp
    next
      case (Inr m)
      obtain r2 w2 where la: "load_all E root fs w1 = (r2, w2)"
        by (cases "load_all E root fs w1")
      have "w' = w2" using Cons.prems False lm Inr la by (cases r2) auto
      then show ?thesis using Cons.IH[OF la] n1 by simp
    qed
  qed
qed

lemma load_all_first_failure:
  "load_all E root pre w = (Inr ms, w2) \<Longrightarrow> last p \<noteq> ''registry.json'' \<Longrightarrow>
   load_module E root p w2 = (Inl e, w3) \<Longrightarrow>
   load_all E root (pre @ p # post) w = (Inl e, w3)"
proof (induction pre arbitrary: w ms)
  case Nil
  then show ?case by simp
next
  case (Cons f fs)
  show ?case
  proof (cases "last f = ''registry.json''")
    case True
    then have "load_all E root fs w = (Inr ms, w2)" using Cons.prems(1) by simp
    from Cons.IH[OF this Cons.prems(2,3)] show ?thesis using True by simp
  next
    case False
    obtain r1 w1 where lm: "load_module E root f w = (r1, w1)"
      by (cases "load_module E root f w")
    from Cons.prems(1) False lm obtain m where r1: "r1 = Inr m" by (cases r1) auto
    obtain r2 w2' where la: "load_all E root fs w1 = (r2, w2')"
      by (cases "load_all E root fs w1")
    from Cons.prems(1) False lm r1 la obtain ms' where "r2 = Inr ms'" "w2' = w2"
      by (cases r2) auto
    then have "load_all E root fs w1 = (Inr ms', w2)" using la by simp
    from Cons.IH[OF this Cons.prems(2,3)] show ?thesis using False lm r1 by simp
  qed
qed

lemma load_module_blank:
  assumes rd: "read_bytes p w = (Inr src, w1)"
    and md: "extract_metadata E p = Inr md"
    and nm: "json_get md ''name'' (JStr []) = Inr v"
    and blank: "strip (py_str (py_repr E) v) = []"
  shows "load_module E root p w
           = (Inl (BootstrapError (path_str p @ '': metadata.name required'')), w1)"
  using assms by (simp add: load_module_def lower_def)

lemma not_manifest: "endswith s ''.js'' \<Longrightarrow> s \<noteq> ''registry.json''"
proof
  assume "endswith s ''.js''" "s = ''registry.json''"
  then have "endswith ''registry.json'' ''.js''" by simp
  then show False by (simp add: endswith_def)
qed

lemma rglob_js_last: "p \<in> set (rglob_js w root) \<Longrightarrow> endswith (last p) ''.js''"
proof -
  assume "p \<in> set (rglob_js w root)"
  then obtain q where q: "p = root @ drop (length (fs_path root)) q"
    "length (fs_path root) < length q" "endswith (last q) ''.js''"
    by (auto simp: rglob_js_def Let_def)
  then have "drop (length (fs_path root)) q \<noteq> []" by simp
  then have "last p = last q" using q(1) by simp
  then show ?thesis using q(3) by simp
qed

lemma ensure_dir_Inr:
  assumes "ensure_dir E p w = (Inr root, w1)"
  shows "\<not> has_nul root \<and>
         (\<forall>q. q \<notin> set (prefixes_of (fs_path root)) \<longrightarrow> lookup_node w1 q = lookup_node w q)"
proof -
  from assms obtain s where s: "strip p \<noteq> []" "expanduser E (strip p) = Some s"
    by (cases "expanduser E (strip p)") (auto simp: ensure_dir_def Let_def split: if_splits)
  obtain r1 w1' where mk: "mkdir_parents (abspath E s) w = (r1, w1')"
    by (cases "mkdir_parents (abspath E s) w")
  from assms s mk obtain u where r1: "r1 = Inr u" and root: "root = abspath E s" and w1: "w1 = w1'"
    by (cases r1) (auto simp: ensure_dir_def Let_def)
  have nn: "\<not> has_nul root" using mk r1 root by (auto simp: mkdir_parents_def split: if_splits)
  then have sm: "sys_mkdir (fs_path root) w = (Inr u, w1)"
    using mk r1 root w1 by (simp add: mkdir_parents_def)
  obtain f w0 where nf: "next_fault w = (f, w0)" by (cases "next_fault w")
  have "w1 = make_dirs (prefixes_of (fs_path root)) w0"
    using sm nf by (cases f) (auto simp: sys_mkdir_def split: if_splits)
  moreover have "\<And>q. lookup_node w0 q = lookup_node w q"
    using next_fault_nodes[OF nf] by (rule lookup_nodes_cong)
  ultimately have "\<forall>q. q \<notin> set (prefixes_of (fs_path root)) \<longrightarrow> lookup_node w1 q = lookup_node w q"
    using make_dirs_lookup[OF prefixes_of_nonempty] by simp
  then show ?thesis using nn by simp
qed


lemma manifest_not_prefix:
  "seg \<noteq> ''/'' \<Longrightarrow> fs_path (root @ [seg]) \<notin> set (prefixes_of (fs_path root))"
proof
  assume seg: "seg \<noteq> ''/''" and mem: "fs_path (root @ [seg]) \<in> set (prefixes_of (fs_path root))"
  have "length (fs_path (root @ [seg])) \<le> length (fs_path root)"
    using mem by (rule prefixes_of_short)
  then show False using fs_path_snoc[OF seg, of root] by simp
qed

lemma load_module_blank_any:
  assumes md: "extract_metadata E p = Inr md"
    and nm: "json_get md ''name'' (JStr []) = Inr v"
    and blank: "strip (py_str (py_repr E) v) = []"
  shows "\<exists>e w''. load_module E root p w' = (Inl e, w'')"
proof -
  obtain r1 w1 where rb: "read_bytes p w' = (r1, w1)" by (cases "read_bytes p w'")
  show ?thesis
  proof (cases r1)
    case (Inl e)
    then show ?thesis using rb by (cases e) (auto simp: load_module_def)
  next
    case (Inr src)
    then show ?thesis using load_module_blank[OF _ md nm blank, of w' src w1 root] rb by blast
  qed
qed

lemma load_all_fails:
  assumes "p \<in> set fs" "last p \<noteq> ''registry.json''"
    and "\<And>w'. \<exists>e w''. load_module E root p w' = (Inl e, w'')"
  shows "\<exists>e w''. load_all E root fs w = (Inl e, w'')"
  using assms(1)
proof (induction fs arbitrary: w)
  case Nil
  then show ?case by simp
next
  case (Cons f fs)
  show ?case
  proof (cases "f = p")
    case True
    obtain e w'' where "load_module E root p w = (Inl e, w'')" using assms(3) by blast
    then show ?thesis using True assms(2) by auto
  next
    case False
    then have mem: "p \<in> set fs" using Cons.prems by simp
    show ?thesis
    proof (cases "last f = ''registry.json''")
      case True
      then show ?thesis using Cons.IH[OF mem] by simp
    next
      case False
      obtain r1 w1 where lm: "load_module E root f w = (r1, w1)"
        by (cases "load_module E root f w")
      show ?thesis
      proof (cases r1)
        case (Inl e)
        then show ?thesis using False lm by auto
      next
        case (Inr m)
        obtain e w'' where "load_all E root fs w1 = (Inl e, w'')" using Cons.IH[OF mem] by blast
        then show ?thesis using False lm Inr by auto
      qed
    qed
  qed
qed

lemma abort_not_zero: "fst (abort e out) \<noteq> Inr 0"
  by (cases e) (simp_all add: abort_def)

text \<open>
  Claim C6.  Let the root directory be in place and let discovery find a module whose
  metadata give a name that is blank after trimming, as metadata without the field
  \<open>name\<close> do.  Then \<open>load_module\<close> raises the error \<open>metadata.name required\<close> with
  the path of that file whenever it can read the file, and never returns a module for
  it.  Discovery fails, \<open>main\<close> ends in its handler with a result other than the exit
  code 0, and the tree is the one \<open>ensure_dir\<close> left: \<open>registry.json\<close> and its
  temporary file are what they were before the run.  When the files sorted before that
  module load, the run ends with the exit code 1 and that error on the standard error.
\<close>

theorem blank_name_aborts:
  assumes ens: "ensure_dir E (arg_root a) w = (Inr root, w1)"
    and found: "p \<in> set (rglob_js w1 root)"
    and md: "extract_metadata E p = Inr md"
    and nm: "json_get md ''name'' (JStr []) = Inr v"
    and blank: "strip (py_str (py_repr E) v) = []"
  shows "(\<forall>w2 src w3. read_bytes p w2 = (Inr src, w3) \<longrightarrow>
            load_module E root p w2
              = (Inl (BootstrapError (path_str p @ '': metadata.name required'')), w3)) \<and>
         (\<exists>e w3. discover_modules E root w1 = (Inl e, w3) \<and>
            main E a w = (abort e [], w3) \<and>
            fst (fst (main E a w)) \<noteq> Inr 0 \<and>
            nodes w3 = nodes w1 \<and>
            lookup_node w3 (fs_path (root @ [''registry.json'']))
              = lookup_node w (fs_path (root @ [''registry.json''])) \<and>
            lookup_node w3 (fs_path (root @ [''registry.json.tmp'']))
              = lookup_node w (fs_path (root @ [''registry.json.tmp'']))) \<and>
         (\<forall>pre post ms w2 src w3.
            sort (rglob_js w1 root) = pre @ p # post \<and>
            load_all E root pre w1 = (Inr ms, w2) \<and>
            read_bytes p w2 = (Inr src, w3) \<longrightarrow>
            main E a w
              = ((Inr 1, [(Stderr, ''bootstrap: '' @ path_str p @ '': metadata.name required'')]),
                 w3)) \<and>
         (\<forall>kvs. map_of kvs ''name'' = None \<longrightarrow>
            json_get (JObj kvs) ''name'' (JStr []) = Inr (JStr []) \<and>
            strip (py_str (py_repr E) (JStr [])) = [])"
proof (intro conjI allI impI)
  fix w2 src w3
  assume "read_bytes p w2 = (Inr src, w3)"
  then show "load_module E root p w2
               = (Inl (BootstrapError (path_str p @ '': metadata.name required'')), w3)"
    using md nm blank by (rule load_module_blank)
next
  have nm': "last p \<noteq> ''registry.json''"
    using found rglob_js_last not_manifest by blast
  have nn: "\<not> has_nul root"
    and frame: "\<forall>q. q \<notin> set (prefixes_of (fs_path root)) \<longrightarrow> lookup_node w1 q = lookup_node w q"
    using ensure_dir_Inr[OF ens] by simp_all
  have "p \<in> set (sort (rglob_js w1 root))" using found by simp
  then obtain e w3 where la: "load_all E root (sort (rglob_js w1 root)) w1 = (Inl e, w3)"
    using load_all_fails[of p "sort (rglob_js w1 root)" E root w1] nm'
      load_module_blank_any[OF md nm blank] by blast
  have disc: "discover_modules E root w1 = (Inl e, w3)"
    using la nn by (simp add: discover_modules_def)
  have run: "main E a w = (abort e [], w3)"
    using ens disc by (simp add: main_def)
  have n3: "nodes w3 = nodes w1" using load_all_nodes[OF la] .
  have same: "lookup_node w3 q = lookup_node w1 q" for q
    using n3 by (rule lookup_nodes_cong)
  have m1: "lookup_node w3 (fs_path (root @ [''registry.json'']))
              = lookup_node w (fs_path (root @ [''registry.json'']))"
    using same frame manifest_not_prefix[of "''registry.json''" root] by simp
  have m2: "lookup_node w3 (fs_path (root @ [''registry.json.tmp'']))
              = lookup_node w (fs_path (root @ [''registry.json.tmp'']))"
    using same frame manifest_not_prefix[of "''registry.json.tmp''" root] by simp
  have nz: "fst (fst (main E a w)) \<noteq> Inr 0" using run abort_not_zero by simp
  show "\<exists>e w3. discover_modules E root w1 = (Inl e, w3) \<and>
            main E a w = (abort e [], w3) \<and>
            fst (fst (main E a w)) \<noteq> Inr 0 \<and>
            nodes w3 = nodes w1 \<and>
            lookup_node w3 (fs_path (root @ [''registry.json'']))
              = lookup_node w (fs_path (root @ [''registry.json''])) \<and>
            lookup_node w3 (fs_path (root @ [''registry.json.tmp'']))
              = lookup_node w (fs_path (root @ [''registry.json.tmp'']))"
    using disc run nz n3 m1 m2 by blast
next
  fix pre post ms w2 src w3
  assume h: "sort (rglob_js w1 root) = pre @ p # post \<and>
             load_all E root pre w1 = (Inr ms, w2) \<and>
             read_bytes p w2 = (Inr src, w3)"
  let ?err = "BootstrapError (path_str p @ '': metadata.name required'')"
  have lm: "load_module E root p w2 = (Inl ?err, w3)"
    using h md nm blank load_module_blank by blast
  have nm': "last p \<noteq> ''registry.json''"
    using found rglob_js_last not_manifest by blast
  have la: "load_all E root (pre @ p # post) w1 = (Inl ?err, w3)"
    using h nm' lm load_all_first_failure by blast
  have nn: "\<not> has_nul root" using ensure_dir_Inr[OF ens] by simp
  have disc: "discover_modules E root w1 = (Inl ?err, w3)"
    using la nn h by (simp add: discover_modules_def)
  show "main E a w
          = ((Inr 1, [(Stderr, ''bootstrap: '' @ path_str p @ '': metadata.name required'')]), w3)"
    using ens disc by (simp add: main_def abort_def)
next
  fix kvs :: "(string \<times> json) list"
  assume "map_of kvs ''name'' = None"
  then show "json_get (JObj kvs) ''name'' (JStr []) = Inr (JStr [])"
    by (simp add: json_get_def)
next
  show "strip (py_str (py_repr E) (JStr [])) = []"
    by (simp add: py_str_def strip_def)
qed

theorem blank_name_aborts_witness:
  "ensure_dir sample_env (arg_root anon_args) anon_world = (Inr [''r''], anon_world) \<and>
   [''r'', ''anon.js''] \<in> set (rglob_js anon_world [''r'']) \<and>
   extract_metadata sample_env [''r'', ''anon.js''] = Inr (JObj [(''version'', JStr ''v1'')]) \<and>
   json_get (JObj [(''version'', JStr ''v1'')]) ''name'' (JStr []) = Inr (JStr []) \<and>
   strip (py_str (py_repr sample_env) (JStr [])) = [] \<and>
   main sample_env anon_args anon_world
     = ((Inr 1, [(Stderr, ''bootstrap: /r/anon.js: metadata.name required'')]), anon_world) \<and>
   lookup_node anon_world [''r'', ''registry.json''] = Some (File ''old'')"
proof -
  have ens: "ensure_dir sample_env (arg_root anon_args) anon_world = (Inr [''r''], anon_world)"
    by code_simp
  have found: "[''r'', ''anon.js''] \<in> set (rglob_js anon_world [''r''])"
    by code_simp
  have md: "extract_metadata sample_env [''r'', ''anon.js''] = Inr (JObj [(''version'', JStr ''v1'')])"
    by code_simp
  have nm: "json_get (JObj [(''version'', JStr ''v1'')]) ''name'' (JStr []) = Inr (JStr [])"
    by code_simp
  have blank: "strip (py_str (py_repr sample_env) (JStr [])) = []"
    by code_simp
  have files: "sort (rglob_js anon_world [''r'']) = [] @ [''r'', ''anon.js''] # []"
    by code_simp
  have earlier: "load_all sample_env [''r''] [] anon_world = (Inr [], anon_world)"
    by simp
  have rd: "read_bytes [''r'', ''anon.js''] anon_world = (Inr ''y'', anon_world)"
    by code_simp
  have shown: "path_str [''r'', ''anon.js''] = ''/r/anon.js''"
    by code_simp
  have old: "lookup_node anon_world [''r'', ''registry.json''] = Some (File ''old'')"
    by code_simp
  from blank_name_aborts[OF ens found md nm blank]
  have "\<forall>pre post ms w2 src w3.
          sort (rglob_js anon_world [''r'']) = pre @ [''r'', ''anon.js''] # post \<and>
          load_all sample_env [''r''] pre anon_world = (Inr ms, w2) \<and>
          read_bytes [''r'', ''anon.js''] w2 = (Inr src, w3) \<longrightarrow>
          main sample_env anon_args anon_world
            = ((Inr 1, [(Stderr, ''bootstrap: '' @ path_str [''r'', ''anon.js'']
                                   @ '': metadata.name required'')]), w3)"
    by blast
  then have "main sample_env anon_args anon_world
               = ((Inr 1, [(Stderr, ''bootstrap: '' @ path_str [''r'', ''anon.js'']
                                      @ '': metadata.name required'')]), anon_world)"
    using files earlier rd by blast
  then have "main sample_env anon_args anon_world
     = ((Inr 1, [(Stderr, ''bootstrap: /r/anon.js: metadata.name required'')]), anon_world)"
    unfolding shown by simp
  then show ?thesis using ens found md nm blank old by simp
qed

end
